theory Spec2Isabelle
  imports Complex_Main "HOL-Library.Multiset"
begin

section \<open>Tables: the pandas data frames of \<open>data_appender.py\<close>\<close>

text \<open>
  A cell of a sheet as \<open>read_excel\<close> returns it: the marker \<open>NaN\<close> of a blank cell, a
  text, a whole number or a floating-point number. A column of a data frame has a label,
  a dtype and its cells. The reader gives a column of whole numbers the dtype \<open>int64\<close>,
  a column of numbers with blanks (or of floating-point numbers) the dtype \<open>float64\<close>,
  whose cells are all floating-point numbers or \<open>NaN\<close>, and any other column the dtype
  \<open>object\<close>, whose cells are kept as they are; \<open>Object\<close> stands here for every dtype
  whose cells \<open>concat\<close> stores unchanged. A data frame is its columns, in order, and
  the length of its index, which is its number of rows; after \<open>rename\<close> two columns may
  carry the same label.
\<close>

datatype cell = NaN | Str string | Num int | Flt real

datatype dtype = Int64 | Float64 | Object

record column =
  label :: string
  dtype :: dtype
  cells :: "cell list"

record dataframe =
  cols :: "column list"
  nrows :: nat

text \<open>\<open>df.columns\<close>, and the rows of the frame: row \<open>j\<close> has cell \<open>j\<close> of every column.\<close>

definition columns :: "dataframe \<Rightarrow> string list" where
  "columns df = map label (cols df)"

definition rows :: "dataframe \<Rightarrow> cell list list" where
  "rows df = map (\<lambda>j. map (\<lambda>c. cells c ! j) (cols df)) [0..<nrows df]"

fun conforms :: "dtype \<Rightarrow> cell \<Rightarrow> bool" where
  "conforms Int64 (Num n) = True"
| "conforms Int64 v = False"
| "conforms Float64 (Flt x) = True"
| "conforms Float64 NaN = True"
| "conforms Float64 v = False"
| "conforms Object v = True"

text \<open>
  What \<open>read_excel\<close> returns: the labels are pairwise different (a repeated header cell
  is renamed by the reader), every column has one cell per row, and the cells of a column
  are of its dtype.
\<close>

definition wf_table :: "dataframe \<Rightarrow> bool" where
  "wf_table df \<longleftrightarrow>
     distinct (columns df) \<and>
     (\<forall>c \<in> set (cols df). length (cells c) = nrows df \<and>
                            (\<forall>v \<in> set (cells c). conforms (dtype c) v))"

datatype error = KeyError | InvalidIndexError

text \<open>\<open>df.rename(columns={source_col: target_col})\<close>: every label equal to the old name is
  replaced; dtypes and cells stay as they are.\<close>

definition rename :: "string \<Rightarrow> string \<Rightarrow> dataframe \<Rightarrow> dataframe" where
  "rename source_col target_col df =
     df\<lparr>cols := map (\<lambda>c. if label c = source_col then c\<lparr>label := target_col\<rparr> else c)
                    (cols df)\<rparr>"

text \<open>
  Lines 39 to 41 of \<open>append_data\<close>. A Python dictionary is the list of its items in
  insertion order, which is the order \<open>items()\<close> iterates in.
\<close>

fun apply_mappings :: "(string \<times> string) list \<Rightarrow> dataframe \<Rightarrow> dataframe" where
  "apply_mappings [] mapped_source_df = mapped_source_df"
| "apply_mappings ((target_col, source_col) # manual_mappings) mapped_source_df =
     apply_mappings manual_mappings
       (if source_col \<in> set (columns mapped_source_df)
        then rename source_col target_col mapped_source_df
        else mapped_source_df)"

text \<open>
  \<open>fillna('')\<close> on one cell and on one column: a \<open>float64\<close> column that has a blank
  becomes an \<open>object\<close> column, since it now holds a text. Line 48 for one label: every
  column carrying the label is filled.
\<close>

definition fillna :: "cell \<Rightarrow> cell" where
  "fillna v = (if v = NaN then Str [] else v)"

definition fillna_column :: "column \<Rightarrow> column" where
  "fillna_column c =
     c\<lparr>dtype := (if dtype c = Float64 \<and> NaN \<in> set (cells c) then Object else dtype c),
       cells := map fillna (cells c)\<rparr>"

definition fill_col :: "string \<Rightarrow> dataframe \<Rightarrow> dataframe" where
  "fill_col col df =
     df\<lparr>cols := map (\<lambda>c. if label c = col then fillna_column c else c) (cols df)\<rparr>"

text \<open>
  \<open>df[common_columns]\<close>: the columns carrying each requested label, in the order of the
  request, with the index of the frame; a label the frame does not have raises
  \<open>KeyError\<close>.
\<close>

definition select_cols :: "string list \<Rightarrow> dataframe \<Rightarrow> error + dataframe" where
  "select_cols labels df =
     (if \<exists>l \<in> set labels. l \<notin> set (columns df) then Inl KeyError
      else Inr (df\<lparr>cols := concat (map (\<lambda>l. filter (\<lambda>c. label c = l) (cols df)) labels)\<rparr>))"

text \<open>
  The conversion of a whole number to \<open>float64\<close>: the nearest number with 53 significant
  bits, a tie going to the even one. Whole numbers up to \<open>2 ^ 53\<close> in magnitude are
  stored exactly.
\<close>

fun bit_length :: "nat \<Rightarrow> nat" where
  "bit_length n = (if n = 0 then 0 else Suc (bit_length (n div 2)))"

declare bit_length.simps [simp del]

definition to_float64 :: "int \<Rightarrow> real" where
  "to_float64 n =
     (let a = nat \<bar>n\<bar>;
          e = bit_length a - 53;
          q = a div 2 ^ e;
          r = a mod 2 ^ e;
          q' = (if 2 * r > 2 ^ e \<or> (2 * r = 2 ^ e \<and> odd q) then q + 1 else q)
      in of_int (sgn n * int (q' * 2 ^ e)))"

text \<open>
  The dtype of a column of the concatenation: the common dtype of its two parts, and a
  dtype that can hold \<open>NaN\<close> when one frame does not have the column and its part is
  padded. A cell stored in a \<open>float64\<close> column is a floating-point number.
\<close>

fun join :: "dtype \<Rightarrow> dtype \<Rightarrow> dtype" where
  "join Int64 Int64 = Int64"
| "join Int64 Float64 = Float64"
| "join Float64 Int64 = Float64"
| "join Float64 Float64 = Float64"
| "join d1 d2 = Object"

fun hold_na :: "dtype \<Rightarrow> dtype" where
  "hold_na Int64 = Float64"
| "hold_na d = d"

fun result_dtype :: "column option \<Rightarrow> column option \<Rightarrow> dtype" where
  "result_dtype (Some x) (Some y) = join (dtype x) (dtype y)"
| "result_dtype (Some x) None = hold_na (dtype x)"
| "result_dtype None (Some y) = hold_na (dtype y)"
| "result_dtype None None = Object"

fun as_dtype :: "dtype \<Rightarrow> cell \<Rightarrow> cell" where
  "as_dtype Float64 (Num n) = Flt (to_float64 n)"
| "as_dtype d v = v"

text \<open>
  One column of the concatenation: the part of each frame, converted to the dtype of the
  result, or as many \<open>NaN\<close> as the frame has rows when the frame has no such column.
\<close>

definition part :: "dtype \<Rightarrow> column option \<Rightarrow> nat \<Rightarrow> cell list" where
  "part d x n = (case x of None \<Rightarrow> replicate n NaN | Some c \<Rightarrow> map (as_dtype d) (cells c))"

definition concat_column ::
  "string \<Rightarrow> column option \<Rightarrow> nat \<Rightarrow> column option \<Rightarrow> nat \<Rightarrow> column" where
  "concat_column l x n y m =
     \<lparr>label = l, dtype = result_dtype x y,
      cells = part (result_dtype x y) x n @ part (result_dtype x y) y m\<rparr>"

text \<open>
  \<open>pd.concat([a, b], ignore_index=True)\<close>. A frame without columns and without rows is
  left out. Otherwise the columns are aligned by label: the result has the labels of
  the first frame followed by the new labels of the second, and the alignment of a
  frame with a repeated label raises \<open>InvalidIndexError\<close>, unless both frames have the
  same labels, which are then joined column by column.
\<close>

definition pd_concat :: "dataframe \<Rightarrow> dataframe \<Rightarrow> error + dataframe" where
  "pd_concat a b =
     (if cols b = [] \<and> nrows b = 0 then Inr a
      else if cols a = [] \<and> nrows a = 0 then Inr b
      else if distinct (columns a) \<and> distinct (columns b)
      then Inr \<lparr>cols = map (\<lambda>l. concat_column l (find (\<lambda>c. label c = l) (cols a)) (nrows a)
                                                (find (\<lambda>c. label c = l) (cols b)) (nrows b))
                          (columns a @ filter (\<lambda>l. l \<notin> set (columns a)) (columns b)),
                nrows = nrows a + nrows b\<rparr>
      else if columns a = columns b
      then Inr \<lparr>cols = map (\<lambda>(x, y). concat_column (label x) (Some x) (nrows a) (Some y) (nrows b))
                          (zip (cols a) (cols b)),
                nrows = nrows a + nrows b\<rparr>
      else Inl InvalidIndexError)"

record statistics =
  source_columns :: nat
  target_columns :: nat
  mapped_columns :: nat
  appended_rows :: nat

text \<open>
  \<open>append_data\<close>, with the two files already read. \<open>list(set(..) & set(..))\<close> enumerates
  a set of strings in an order the interpreter chooses (it depends on the hash seed of
  the process), so the enumeration is the parameter \<open>set_order\<close>. The frame written back
  to the target file is returned beside the statistics.
\<close>

definition valid_set_order :: "(string list \<Rightarrow> string list) \<Rightarrow> bool" where
  "valid_set_order set_order \<longleftrightarrow> (\<forall>xs. distinct (set_order xs) \<and> set (set_order xs) = set xs)"

definition common_cols ::
  "(string list \<Rightarrow> string list) \<Rightarrow> dataframe \<Rightarrow> dataframe \<Rightarrow> string list" where
  "common_cols set_order mapped_source_df target_df =
     set_order (filter (\<lambda>c. c \<in> set (columns target_df)) (columns mapped_source_df))"

definition append_data ::
  "(string list \<Rightarrow> string list) \<Rightarrow> dataframe \<Rightarrow> dataframe \<Rightarrow> (string \<times> string) list
     \<Rightarrow> error + dataframe \<times> statistics" where
  "append_data set_order source_df target_df manual_mappings =
     (let mapped_source_df = apply_mappings manual_mappings source_df;
          common_columns = common_cols set_order mapped_source_df target_df;
          mapped_source_df = fold fill_col common_columns mapped_source_df
      in case select_cols common_columns mapped_source_df of
           Inl e \<Rightarrow> Inl e
         | Inr selected \<Rightarrow>
             (case pd_concat target_df selected of
                Inl e \<Rightarrow> Inl e
              | Inr appended_df \<Rightarrow>
                  Inr (appended_df,
                       \<lparr>source_columns = length (columns source_df),
                        target_columns = length (columns target_df),
                        mapped_columns = length common_columns,
                        appended_rows = nrows mapped_source_df\<rparr>)))"

text \<open>
  What \<open>concat\<close> can make of a cell: the cell itself, or for a whole number the
  floating-point number nearest to it.
\<close>

fun promoted :: "cell \<Rightarrow> cell \<Rightarrow> bool" where
  "promoted (Num n) v = (v = Num n \<or> v = Flt (to_float64 n))"
| "promoted u v = (v = u)"



text \<open>
  The frame that \<open>append_data\<close> writes when no target label is carried by two columns of
  the renamed source, stated without the enumeration of the common columns.
\<close>

definition merged_frame :: "dataframe \<Rightarrow> dataframe \<Rightarrow> (string \<times> string) list \<Rightarrow> dataframe" where
  "merged_frame source_df target_df m =
     (let mapped = apply_mappings m source_df in
      if set (columns mapped) \<inter> set (columns target_df) = {} \<and> nrows source_df = 0
      then target_df
      else if cols target_df = [] \<and> nrows target_df = 0
      then \<lparr>cols = [], nrows = nrows source_df\<rparr>
      else \<lparr>cols = map (\<lambda>t. concat_column (label t) (Some t) (nrows target_df)
                            (map_option fillna_column
                               (find (\<lambda>c. label c = label t) (cols mapped)))
                            (nrows source_df))
                      (cols target_df),
            nrows = nrows target_df + nrows source_df\<rparr>)"

section \<open>The mapping dialog of \<open>mapping_review_dialog.py\<close>\<close>

text \<open>
  The assignment \<open>d[k] = v\<close> of a Python dictionary: an existing key keeps its place and
  takes the new entry, a new key goes last.
\<close>

fun dict_set :: "'k \<Rightarrow> 'v \<Rightarrow> ('k \<times> 'v) list \<Rightarrow> ('k \<times> 'v) list" where
  "dict_set k v [] = [(k, v)]"
| "dict_set k v ((k', v') # d) =
     (if k' = k then (k, v) # d else (k', v') # dict_set k v d)"

text \<open>
  The dropdown of a row (its entries and the index of the current one), a row of the tree
  widget (the texts of its first two cells and the dropdown in its third cell, when it
  has one) and the state of the dialog.
\<close>

record combo =
  items :: "string list"
  currentIndex :: int

record tree_item =
  text0 :: string
  text1 :: string
  widget :: "combo option"

record dialog =
  mapping_tree :: "tree_item list"
  manual_mappings :: "(string \<times> string) list"

text \<open>The text of the current entry; the empty text when no entry is current.\<close>

definition currentText :: "combo \<Rightarrow> string" where
  "currentText combo =
     (if 0 \<le> currentIndex combo \<and> currentIndex combo < int (length (items combo))
      then items combo ! nat (currentIndex combo) else [])"

text \<open>
  \<open>process.extract(query, choices, limit)\<close> of the fuzzy matching library: every choice is
  scored against the query, and the \<open>limit\<close> best are returned, best first, choices of
  equal score in the order of \<open>choices\<close>. The scoring function of the library is the
  parameter \<open>scorer\<close>.
\<close>

definition process_extract ::
  "(string \<Rightarrow> string \<Rightarrow> int) \<Rightarrow> string \<Rightarrow> string list \<Rightarrow> nat \<Rightarrow> (string \<times> int) list" where
  "process_extract scorer query choices limit =
     take limit (sort_key (\<lambda>m. - snd m) (map (\<lambda>choice. (choice, scorer query choice)) choices))"

text \<open>The body of the loop of \<open>load_mappings\<close> (lines 92 to 118) for one target column.\<close>

definition load_column ::
  "(string \<Rightarrow> string \<Rightarrow> int) \<Rightarrow> string list \<Rightarrow> string \<Rightarrow> dialog \<Rightarrow> dialog" where
  "load_column scorer source_cols target_col d =
     (if target_col \<in> set source_cols
      then d\<lparr>mapping_tree := mapping_tree d @
                  [\<lparr>text0 = target_col, text1 = target_col, widget = None\<rparr>],
              manual_mappings := dict_set target_col target_col (manual_mappings d)\<rparr>
      else (let matches = process_extract scorer target_col source_cols 5;
                suggestions = map fst (filter (\<lambda>match. 60 \<le> snd match) matches);
                combo = \<lparr>items = ''Select mapping...'' # suggestions, currentIndex = 0\<rparr>
            in d\<lparr>mapping_tree := mapping_tree d @
                    [\<lparr>text0 = target_col, text1 = ''Not Mapped'', widget = Some combo\<rparr>]\<rparr>))"

definition load_mappings ::
  "(string \<Rightarrow> string \<Rightarrow> int) \<Rightarrow> string list \<Rightarrow> string list \<Rightarrow> dialog \<Rightarrow> dialog" where
  "load_mappings scorer source_cols target_cols d =
     fold (load_column scorer source_cols) target_cols d"

text \<open>The constructor: an empty tree, an empty dictionary, then \<open>load_mappings\<close>.\<close>

definition MappingReviewDialog ::
  "(string \<Rightarrow> string \<Rightarrow> int) \<Rightarrow> string list \<Rightarrow> string list \<Rightarrow> dialog" where
  "MappingReviewDialog scorer source_cols target_cols =
     load_mappings scorer source_cols target_cols
       \<lparr>mapping_tree = [], manual_mappings = []\<rparr>"

text \<open>
  \<open>on_mapping_selected(item, combo)\<close>. The item is an object of the tree in the source
  and the index of its row here; the signal that calls the function is connected for rows
  of the tree only, so the index is that of an existing row wherever the program calls
  it, and the facts below that depend on the row assume so.
\<close>

definition on_mapping_selected :: "nat \<Rightarrow> combo \<Rightarrow> dialog \<Rightarrow> dialog" where
  "on_mapping_selected item combo d =
     (if currentIndex combo > 0
      then (let target_col = text0 (mapping_tree d ! item);
                source_col = currentText combo
            in d\<lparr>mapping_tree := (mapping_tree d)[item := (mapping_tree d ! item)\<lparr>text1 := source_col\<rparr>],
                 manual_mappings := dict_set target_col source_col (manual_mappings d)\<rparr>)
      else d)"

text \<open>
  The user picks entry \<open>k\<close> in the dropdown of row \<open>i\<close>: the dropdown takes the index and,
  when the index has changed, its signal calls \<open>on_mapping_selected\<close> with the row and
  the dropdown (the connection of lines 114 and 115).
\<close>

definition select_index :: "nat \<Rightarrow> int \<Rightarrow> dialog \<Rightarrow> dialog" where
  "select_index i k d =
     (case widget (mapping_tree d ! i) of
        None \<Rightarrow> d
      | Some combo \<Rightarrow>
          if k = currentIndex combo then d
          else (let combo' = combo\<lparr>currentIndex := k\<rparr>;
                    d' = d\<lparr>mapping_tree :=
                            (mapping_tree d)[i := (mapping_tree d ! i)\<lparr>widget := Some combo'\<rparr>]\<rparr>
                in on_mapping_selected i combo' d'))"

definition get_manual_mappings :: "dialog \<Rightarrow> (string \<times> string) list" where
  "get_manual_mappings d = manual_mappings d"

text \<open>
  The row that the loop of \<open>load_mappings\<close> adds for a target column, used to state
  what the loop has built.
\<close>

definition initial_row :: "(string \<Rightarrow> string \<Rightarrow> int) \<Rightarrow> string list \<Rightarrow> string \<Rightarrow> tree_item" where
  "initial_row scorer source_cols target_col =
     (if target_col \<in> set source_cols
      then \<lparr>text0 = target_col, text1 = target_col, widget = None\<rparr>
      else \<lparr>text0 = target_col, text1 = ''Not Mapped'',
            widget = Some \<lparr>items = ''Select mapping...'' #
                                   map fst (filter (\<lambda>match. 60 \<le> snd match)
                                              (process_extract scorer target_col source_cols 5)),
                           currentIndex = 0\<rparr>\<rparr>)"

text \<open>
  The states of the dialog that a user can reach before pressing Proceed: the dialog as
  constructed, then any number of picks in the dropdowns of its rows.
\<close>

inductive reachable ::
  "(string \<Rightarrow> string \<Rightarrow> int) \<Rightarrow> string list \<Rightarrow> string list \<Rightarrow> dialog \<Rightarrow> bool"
  for scorer source_cols target_cols where
  constructed: "reachable scorer source_cols target_cols
                  (MappingReviewDialog scorer source_cols target_cols)"
| picked: "reachable scorer source_cols target_cols d \<Longrightarrow>
           i < length (mapping_tree d) \<Longrightarrow> widget (mapping_tree d ! i) = Some combo \<Longrightarrow>
           k < length (items combo) \<Longrightarrow>
           reachable scorer source_cols target_cols (select_index i (int k) d)"

code_pred reachable .

text \<open>
  The shape of every dictionary the dialog hands to \<open>append_data\<close>: one entry per key,
  and a key that is itself a source column is mapped to itself (the exact matches of
  line 100; a row with a dropdown is never a source column).
\<close>

definition finalized_mapping :: "string list \<Rightarrow> (string \<times> string) list \<Rightarrow> bool" where
  "finalized_mapping source_cols m \<longleftrightarrow>
     distinct (map fst m) \<and> (\<forall>p \<in> set m. fst p \<in> set source_cols \<longrightarrow> snd p = fst p)"

text \<open>
  What holds of every state the user can reach: the dictionary has that shape, and a row
  with a dropdown is not a source column and offers, after the placeholder, source
  columns only.
\<close>

definition dialog_inv :: "string list \<Rightarrow> dialog \<Rightarrow> bool" where
  "dialog_inv source_cols d \<longleftrightarrow>
     finalized_mapping source_cols (manual_mappings d) \<and>
     (\<forall>it \<in> set (mapping_tree d). \<forall>c. widget it = Some c \<longrightarrow>
        text0 it \<notin> set source_cols \<and> items c \<noteq> [] \<and>
        set (tl (items c)) \<subseteq> set source_cols)"

subsection \<open>The mapping entries of the specification, read off the dialog\<close>

text \<open>
  The code keeps no status: a row without a dropdown is an exact match, a row with a
  dropdown is manually set once the dictionary has its target column, and is otherwise
  suggested or unmapped as its dropdown has entries after the placeholder or not. The
  chosen source column is the dictionary's entry, the candidates are the entries of the
  dropdown after the placeholder.
\<close>

datatype status = Exact | Suggested | Unmapped | ManuallySet

definition chosen_source_column :: "dialog \<Rightarrow> tree_item \<Rightarrow> string option" where
  "chosen_source_column d it = map_of (manual_mappings d) (text0 it)"

definition candidates :: "tree_item \<Rightarrow> string list" where
  "candidates it = (case widget it of None \<Rightarrow> [] | Some combo \<Rightarrow> tl (items combo))"

definition entry_status :: "dialog \<Rightarrow> tree_item \<Rightarrow> status" where
  "entry_status d it =
     (case widget it of
        None \<Rightarrow> Exact
      | Some combo \<Rightarrow>
          if chosen_source_column d it \<noteq> None then ManuallySet
          else if candidates it \<noteq> [] then Suggested else Unmapped)"

subsection \<open>A scoring function for the worked examples\<close>

text \<open>
  The examples below need some scoring function: this one finds \<open>Email\<close> a good match
  for every query and every other choice a poor one.
\<close>

definition demo_scorer :: "string \<Rightarrow> string \<Rightarrow> int" where
  "demo_scorer query choice = (if choice = ''Email'' then 91 else 45)"


section \<open>The headers of the two files: \<open>pd.read_excel(file, nrows=0).columns\<close>\<close>

text \<open>
  \<open>load_mappings\<close> does not see the header cells of a file but the labels that
  \<open>read_excel\<close> makes of them (lines 85 to 89). A file is given here by the cells of
  its header row, each a text, the empty text for an empty cell. The reader (pandas 2,
  \<open>_infer_columns\<close>) labels an empty cell \<open>Unnamed: i\<close> by its position and renames
  a cell whose text an earlier label already has, so that a header never reaches the
  loop of \<open>load_mappings\<close> with a repeated label as it stands in the file.
\<close>

text \<open>The decimal digits of a number, as a format string prints it.\<close>

fun show_nat :: "nat \<Rightarrow> string" where
  "show_nat n =
     (if n < 10 then [''0123456789'' ! n]
      else show_nat (n div 10) @ [''0123456789'' ! (n mod 10)])"

declare show_nat.simps [simp del]

text \<open>
  The loop \<open>while cur_count > 0\<close> of the reader, for one column: \<open>counts\<close> is the
  dictionary of the labels given so far (a label it does not have counts 0), \<open>old_col\<close>
  the text of the cell, \<open>col\<close> the label tried last. The result is the label, the last
  count and the dictionary.
\<close>

partial_function (option) mangle_loop ::
  "string list \<Rightarrow> string \<Rightarrow> (string \<Rightarrow> nat) \<Rightarrow> nat \<Rightarrow> string \<Rightarrow>
     (string \<times> nat \<times> (string \<Rightarrow> nat)) option" where
  "mangle_loop this_columns old_col counts cur_count col =
     (if cur_count > 0
      then (if old_col @ ''.'' @ show_nat cur_count \<in> set this_columns
            then mangle_loop this_columns old_col (counts(old_col := cur_count + 1))
                   (cur_count + 1) (old_col @ ''.'' @ show_nat cur_count)
            else mangle_loop this_columns old_col (counts(old_col := cur_count + 1))
                   ((counts(old_col := cur_count + 1)) (old_col @ ''.'' @ show_nat cur_count))
                   (old_col @ ''.'' @ show_nat cur_count))
      else Some (col, cur_count, counts))"

text \<open>The loop over the columns, in the order \<open>col_loop_order\<close>.\<close>

fun dedup_loop ::
  "nat list \<Rightarrow> string list \<times> (string \<Rightarrow> nat) \<Rightarrow> (string list \<times> (string \<Rightarrow> nat)) option" where
  "dedup_loop [] st = Some st"
| "dedup_loop (i # col_loop_order) (this_columns, counts) =
     (case mangle_loop this_columns (this_columns ! i) counts (counts (this_columns ! i))
             (this_columns ! i) of
        None \<Rightarrow> None
      | Some (col, cur_count, counts') \<Rightarrow>
          dedup_loop col_loop_order (this_columns[i := col], counts'(col := cur_count + 1)))"

text \<open>
  The labels of a header row: the cells with a text are renamed before the empty ones.
  The result is \<open>None\<close> when the renaming of some column does not come to an end.
\<close>

definition read_excel_columns :: "string list \<Rightarrow> string list option" where
  "read_excel_columns line =
     (let this_columns =
            map (\<lambda>i. if line ! i = [] then ''Unnamed: '' @ show_nat i else line ! i)
                [0..<length line];
          this_unnamed_cols = filter (\<lambda>i. line ! i = []) [0..<length line];
          col_loop_order =
            filter (\<lambda>i. i \<notin> set this_unnamed_cols) [0..<length this_columns] @
            this_unnamed_cols
      in map_option fst (dedup_loop col_loop_order (this_columns, \<lambda>c. 0)))"

text \<open>
  The dialog constructed for two files, each given by its header row: \<open>load_mappings\<close>
  reads the labels of both (lines 85 to 89) and runs its loop on them.
\<close>

definition MappingReviewDialog_of_files ::
  "(string \<Rightarrow> string \<Rightarrow> int) \<Rightarrow> string list \<Rightarrow> string list \<Rightarrow> dialog option" where
  "MappingReviewDialog_of_files scorer source_file target_file =
     (case read_excel_columns source_file of
        None \<Rightarrow> None
      | Some source_cols \<Rightarrow>
          (case read_excel_columns target_file of
             None \<Rightarrow> None
           | Some target_cols \<Rightarrow> Some (MappingReviewDialog scorer source_cols target_cols)))"

text \<open>
  A second scoring function for the examples: a choice that the query begins with is a
  good match, every other choice a poor one.
\<close>

definition prefix_scorer :: "string \<Rightarrow> string \<Rightarrow> int" where
  "prefix_scorer query choice = (if take (length choice) query = choice then 90 else 45)"

section \<open>Facts about the data frame operations\<close>

lemma length_rows: "length (rows df) = nrows df"
  by (simp add: rows_def)

lemma rows_cong:
  "map cells (cols a) = map cells (cols b) \<Longrightarrow> nrows a = nrows b \<Longrightarrow> rows a = rows b"
proof -
  assume c: "map cells (cols a) = map cells (cols b)" and n: "nrows a = nrows b"
  have "map (\<lambda>c. cells c ! j) (cols a) = map (\<lambda>c. cells c ! j) (cols b)" for j
  proof -
    have "map (\<lambda>c. cells c ! j) (cols a) = map (\<lambda>cs. cs ! j) (map cells (cols a))"
      by (simp add: comp_def)
    also have "\<dots> = map (\<lambda>cs. cs ! j) (map cells (cols b))" by (simp only: c)
    also have "\<dots> = map (\<lambda>c. cells c ! j) (cols b)" by (simp add: comp_def)
    finally show ?thesis .
  qed
  with n show ?thesis by (simp add: rows_def)
qed

lemma rename_columns:
  "columns (rename s t df) = map (\<lambda>c. if c = s then t else c) (columns df)"
  by (simp add: rename_def columns_def comp_def if_distrib [of label] cong: if_cong)

lemma rename_cells: "map cells (cols (rename s t df)) = map cells (cols df)"
  by (simp add: rename_def comp_def if_distrib [of cells] cong: if_cong)

lemma rename_nrows: "nrows (rename s t df) = nrows df"
  by (simp add: rename_def)

lemma apply_mappings_cells: "map cells (cols (apply_mappings m df)) = map cells (cols df)"
  by (induction m df rule: apply_mappings.induct) (simp_all add: rename_cells)

lemma apply_mappings_nrows: "nrows (apply_mappings m df) = nrows df"
  by (induction m df rule: apply_mappings.induct) (simp_all add: rename_nrows)

lemma apply_mappings_rows: "rows (apply_mappings m df) = rows df"
  by (rule rows_cong) (simp_all add: apply_mappings_cells apply_mappings_nrows)

lemma apply_mappings_length:
  "length (columns (apply_mappings m df)) = length (columns df)"
proof -
  have "length (map cells (cols (apply_mappings m df))) = length (map cells (cols df))"
    by (simp only: apply_mappings_cells)
  then show ?thesis by (simp add: columns_def)
qed

lemma fillna_idem: "fillna (fillna v) = fillna v"
  by (simp add: fillna_def)

lemma fillna_not_NaN: "fillna v \<noteq> NaN"
  by (simp add: fillna_def)

lemma label_fillna_column: "label (fillna_column c) = label c"
  by (simp add: fillna_column_def)


lemma fillna_column_idem: "fillna_column (fillna_column c) = fillna_column c"
proof -
  have "NaN \<notin> set (map fillna (cells c))"
    by (auto simp: fillna_not_NaN [symmetric])
  then show ?thesis
    by (simp add: fillna_column_def fillna_idem comp_def)
qed

text \<open>The frame after the loop of line 47: the columns under the common labels are filled.\<close>

lemma fold_fill_col:
  "fold fill_col cc df =
     df\<lparr>cols := map (\<lambda>c. if label c \<in> set cc then fillna_column c else c) (cols df)\<rparr>"
proof (induction cc arbitrary: df)
  case Nil
  then show ?case by simp
next
  case (Cons l cc)
  let ?f = "\<lambda>c. if label c = l then fillna_column c else c"
  let ?g = "\<lambda>c. if label c \<in> set cc then fillna_column c else c"
  have one: "fill_col l df = df\<lparr>cols := map ?f (cols df)\<rparr>"
    by (simp add: fill_col_def)
  have both: "map ?g (map ?f (cols df)) =
        map (\<lambda>c. if label c \<in> set (l # cc) then fillna_column c else c) (cols df)"
    by (auto simp: label_fillna_column fillna_column_idem)
  have "fold fill_col (l # cc) df = fold fill_col cc (fill_col l df)" by simp
  also have "\<dots> = (fill_col l df)\<lparr>cols := map ?g (cols (fill_col l df))\<rparr>"
    by (rule Cons.IH)
  also have "\<dots> = df\<lparr>cols := map ?g (map ?f (cols df))\<rparr>"
    unfolding one by simp
  finally show ?case unfolding both .
qed

lemma filter_eq_single:
  "distinct (filter P xs) \<Longrightarrow> c \<in> set xs \<Longrightarrow> P c \<Longrightarrow> filter (\<lambda>x. x = c) xs = [c]"
proof (induction xs)
  case Nil
  then show ?case by simp
next
  case (Cons x xs)
  show ?case
  proof (cases "x = c")
    case True
    with Cons.prems have "c \<notin> set xs" by simp
    then have "filter (\<lambda>x. x = c) xs = []" by (auto simp: filter_empty_conv)
    with True show ?thesis by simp
  next
    case False
    with Cons.prems have "c \<in> set xs" "distinct (filter P xs)"
      by (auto split: if_splits)
    with Cons.IH Cons.prems(3) False show ?thesis by simp
  qed
qed

lemma single_column:
  "filter (\<lambda>x. x = l) (map label xs) = [l] \<Longrightarrow>
     \<exists>s. filter (\<lambda>c. label c = l) xs = [s] \<and> find (\<lambda>c. label c = l) xs = Some s"
proof (induction xs)
  case Nil
  then show ?case by simp
next
  case (Cons x xs)
  show ?case
  proof (cases "label x = l")
    case True
    with Cons.prems have "filter (\<lambda>x. x = l) (map label xs) = []" by simp
    then have "filter (\<lambda>c. label c = l) xs = []"
      by (auto simp: filter_empty_conv)
    with True show ?thesis by simp
  next
    case False
    with Cons show ?thesis by simp
  qed
qed

lemma find_label_None: "l \<notin> set (map label xs) \<Longrightarrow> find (\<lambda>c. label c = l) xs = None"
  by (induction xs) auto

lemma find_label_distinct:
  "distinct (map label xs) \<Longrightarrow> t \<in> set xs \<Longrightarrow> find (\<lambda>c. label c = label t) xs = Some t"
  by (induction xs) auto

lemma find_label_map:
  "\<forall>l \<in> set ls. label (h l) = l \<Longrightarrow>
     find (\<lambda>c. label c = l) (map h ls) = (if l \<in> set ls then Some (h l) else None)"
  by (induction ls) auto

lemma concat_map_single: "\<forall>c \<in> set cc. f c = [g c] \<Longrightarrow> concat (map f cc) = map g cc"
  by (induction cc) simp_all

lemma distinct_concat_part: "distinct (concat xss) \<Longrightarrow> ys \<in> set xss \<Longrightarrow> distinct ys"
  by (induction xss) auto

lemma repeated_label:
  assumes "\<not> distinct (filter P xs)"
  shows "\<exists>c. P c \<and> c \<in> set xs \<and> \<not> distinct (filter (\<lambda>x. x = c) xs)"
proof -
  from assms obtain us vs ws y where dec: "filter P xs = us @ [y] @ vs @ [y] @ ws"
    using not_distinct_decomp by blast
  then have "y \<in> set (filter P xs)" by simp
  then have y: "P y" "y \<in> set xs" by simp_all
  have "filter (\<lambda>x. x = y) xs = filter (\<lambda>x. x = y) (filter P xs)"
    using y(1) by (auto intro: filter_cong)
  also have "\<dots> = filter (\<lambda>x. x = y) us @ [y] @ filter (\<lambda>x. x = y) vs @ [y] @
                    filter (\<lambda>x. x = y) ws"
    by (simp add: dec)
  finally have "\<not> distinct (filter (\<lambda>x. x = y) xs)" by simp
  with y show ?thesis by blast
qed

text \<open>
  The selection \<open>df[common_columns]\<close> of the filled frame, by its labels and, when no
  common label is carried by two columns, by its columns.
\<close>

lemma columns_selected:
  "columns (df\<lparr>cols := concat (map (\<lambda>l. filter (\<lambda>c. label c = l) (cols df)) cc)\<rparr>) =
     concat (map (\<lambda>l. filter (\<lambda>x. x = l) (columns df)) cc)"
  by (induction cc) (simp_all add: columns_def filter_map comp_def)

lemma pd_concat_aligned:
  assumes "\<not> (cols b = [] \<and> nrows b = 0)" and "\<not> (cols a = [] \<and> nrows a = 0)"
    and "distinct (columns a)" and "distinct (columns b)"
  shows "pd_concat a b =
           Inr \<lparr>cols = map (\<lambda>l. concat_column l (find (\<lambda>c. label c = l) (cols a)) (nrows a)
                                              (find (\<lambda>c. label c = l) (cols b)) (nrows b))
                              (columns a @ filter (\<lambda>l. l \<notin> set (columns a)) (columns b)),
                 nrows = nrows a + nrows b\<rparr>"
  using assms unfolding pd_concat_def by (simp only: if_False if_True simp_thms)

lemma merged_frame_aligned:
  assumes "\<not> (set (columns (apply_mappings m source_df)) \<inter> set (columns target_df) = {} \<and>
              nrows source_df = 0)"
    and "\<not> (cols target_df = [] \<and> nrows target_df = 0)"
  shows "merged_frame source_df target_df m =
           \<lparr>cols = map (\<lambda>t. concat_column (label t) (Some t) (nrows target_df)
                            (map_option fillna_column
                               (find (\<lambda>c. label c = label t) (cols (apply_mappings m source_df))))
                            (nrows source_df))
                      (cols target_df),
            nrows = nrows target_df + nrows source_df\<rparr>"
  using assms unfolding merged_frame_def Let_def by (simp only: if_False if_True simp_thms)

lemma dataframe_cols_update: "df\<lparr>cols := X\<rparr> = \<lparr>cols = X, nrows = nrows df\<rparr>"
  by (cases df) simp

text \<open>
  The whole of \<open>append_data\<close> when no target label is carried by two columns of the
  renamed source.
\<close>

lemma append_data_returns:
  assumes td: "distinct (columns target_df)"
    and ord: "valid_set_order set_order"
    and dis: "distinct (filter (\<lambda>c. c \<in> set (columns target_df))
                               (columns (apply_mappings m source_df)))"
  shows "append_data set_order source_df target_df m =
           Inr (merged_frame source_df target_df m,
                \<lparr>source_columns = length (columns source_df),
                 target_columns = length (columns target_df),
                 mapped_columns = card (set (columns (apply_mappings m source_df)) \<inter>
                                        set (columns target_df)),
                 appended_rows = nrows source_df\<rparr>)"
proof -
  define mapped where "mapped = apply_mappings m source_df"
  define T where "T = columns target_df"
  define cc where "cc = common_cols set_order mapped target_df"
  define filled where "filled = fold fill_col cc mapped"
  define g where "g = (\<lambda>c. if label c \<in> set cc then fillna_column c else c)"
  define h where "h = (\<lambda>l. fillna_column (the (find (\<lambda>c. label c = l) (cols mapped))))"
  define nb where "nb = nrows source_df"
  define na where "na = nrows target_df"
  have cc_dist: "distinct cc" and cc_set: "set cc = set (columns mapped) \<inter> set T"
    using ord by (auto simp: valid_set_order_def cc_def common_cols_def T_def)
  have label_g: "label (g c) = label c" for c
    by (simp add: g_def label_fillna_column)
  have filled: "filled = \<lparr>cols = map g (cols mapped), nrows = nb\<rparr>"
    by (simp add: filled_def fold_fill_col g_def dataframe_cols_update nb_def mapped_def
        apply_mappings_nrows)
  have fcols: "columns filled = columns mapped"
    by (simp add: filled columns_def label_g comp_def)
  have one: "filter (\<lambda>c. label c = l) (cols filled) = [h l] \<and>
             find (\<lambda>c. label c = l) (cols mapped) = Some (the (find (\<lambda>c. label c = l) (cols mapped))) \<and>
             label (h l) = l"
    if l: "l \<in> set cc" for l
  proof -
    from l cc_set have lm: "l \<in> set (columns mapped)" and lt: "l \<in> set (columns target_df)"
      by (simp_all add: T_def)
    from dis lm lt have "filter (\<lambda>x. x = l) (columns mapped) = [l]"
      unfolding mapped_def by (rule filter_eq_single)
    then obtain s where s: "filter (\<lambda>c. label c = l) (cols mapped) = [s]"
      "find (\<lambda>c. label c = l) (cols mapped) = Some s"
      using single_column [of l "cols mapped"] by (auto simp: columns_def)
    from s(1) have "s \<in> set (filter (\<lambda>c. label c = l) (cols mapped))" by simp
    then have ls: "label s = l" by simp
    have "filter (\<lambda>c. label c = l) (cols filled) =
          map g (filter (\<lambda>c. label c = l) (cols mapped))"
      by (simp add: filled filter_map comp_def label_g)
    with s ls l show ?thesis
      by (simp add: h_def g_def label_fillna_column)
  qed
  have sel_cols: "concat (map (\<lambda>l. filter (\<lambda>c. label c = l) (cols filled)) cc) = map h cc"
    by (rule concat_map_single) (simp add: one)
  have nokey: "\<not> (\<exists>l \<in> set cc. l \<notin> set (columns filled))"
    using cc_set fcols by auto
  have nf: "nrows filled = nb" by (simp add: filled)
  have "select_cols cc filled =
          Inr (filled\<lparr>cols := concat (map (\<lambda>l. filter (\<lambda>c. label c = l) (cols filled)) cc)\<rparr>)"
    using nokey by (simp add: select_cols_def)
  then have sel: "select_cols cc filled = Inr \<lparr>cols = map h cc, nrows = nb\<rparr>"
    by (simp only: sel_cols dataframe_cols_update nf)
  have label_h: "\<forall>l \<in> set cc. label (h l) = l" by (simp add: one)
  have sel_labels: "map label (map h cc) = cc"
    using label_h by (simp add: map_idI)
  have empty_iff: "cc = [] \<longleftrightarrow> set (columns mapped) \<inter> set T = {}"
    using cc_set by auto
  have cat: "pd_concat target_df \<lparr>cols = map h cc, nrows = nb\<rparr> =
             Inr (merged_frame source_df target_df m)"
  proof (cases "cc = [] \<and> nb = 0")
    case True
    then show ?thesis
      using empty_iff
      by (simp add: pd_concat_def merged_frame_def Let_def mapped_def [symmetric]
          T_def [symmetric] nb_def [symmetric])
  next
    case False
    note notA = this
    show ?thesis
    proof (cases "cols target_df = [] \<and> nrows target_df = 0")
      case True
      then have "T = []" by (simp add: T_def columns_def)
      with cc_set have "cc = []" by simp
      with True notA empty_iff show ?thesis
        by (simp add: pd_concat_def merged_frame_def Let_def mapped_def [symmetric]
            T_def [symmetric] nb_def [symmetric])
    next
      case False
      have new: "T @ filter (\<lambda>l. l \<notin> set T) cc = T"
        using cc_set by (auto simp: filter_empty_conv)
      have col: "concat_column (label t) (find (\<lambda>c. label c = label t) (cols target_df)) na
                   (find (\<lambda>c. label c = label t) (map h cc)) nb =
                 concat_column (label t) (Some t) na
                   (map_option fillna_column (find (\<lambda>c. label c = label t) (cols mapped))) nb"
        if t: "t \<in> set (cols target_df)" for t
      proof -
        from td t have ft: "find (\<lambda>c. label c = label t) (cols target_df) = Some t"
          unfolding columns_def by (rule find_label_distinct)
        have fs: "find (\<lambda>c. label c = label t) (map h cc) =
                  (if label t \<in> set cc then Some (h (label t)) else None)"
          using label_h by (rule find_label_map)
        have "find (\<lambda>c. label c = label t) (map h cc) =
              map_option fillna_column (find (\<lambda>c. label c = label t) (cols mapped))"
        proof (cases "label t \<in> set cc")
          case True
          from one [OF True] obtain s where
            "find (\<lambda>c. label c = label t) (cols mapped) = Some s" by blast
          with True fs show ?thesis
            by (simp add: h_def)
        next
          case False
          moreover from t have "label t \<in> set T" by (simp add: T_def columns_def)
          ultimately have "label t \<notin> set (map label (cols mapped))"
            using cc_set by (simp add: columns_def)
          then have "find (\<lambda>c. label c = label t) (cols mapped) = None"
            by (rule find_label_None)
          with False fs show ?thesis by simp
        qed
        with ft show ?thesis by simp
      qed
      have same: "map (\<lambda>l. concat_column l (find (\<lambda>c. label c = l) (cols target_df)) na
                       (find (\<lambda>c. label c = l) (map h cc)) nb) T =
            map (\<lambda>t. concat_column (label t) (Some t) na
                       (map_option fillna_column (find (\<lambda>c. label c = label t) (cols mapped))) nb)
                (cols target_df)"
        using col by (simp add: T_def columns_def comp_def)
      define sel where "sel = \<lparr>cols = map h cc, nrows = nb\<rparr>"
      have sl: "columns sel = cc" using sel_labels by (simp add: sel_def columns_def)
      have p1: "\<not> (cols sel = [] \<and> nrows sel = 0)"
        using notA by (simp add: sel_def)
      have p3: "distinct (columns target_df) \<and> distinct (columns sel)"
        using td cc_dist by (simp add: sl)
      have "pd_concat target_df sel =
              Inr \<lparr>cols = map (\<lambda>l. concat_column l (find (\<lambda>c. label c = l) (cols target_df))
                                       (nrows target_df) (find (\<lambda>c. label c = l) (cols sel))
                                       (nrows sel))
                                 (columns target_df @
                                    filter (\<lambda>l. l \<notin> set (columns target_df)) (columns sel)),
                    nrows = nrows target_df + nrows sel\<rparr>"
        using p1 False p3 by (intro pd_concat_aligned) simp_all
      also have "\<dots> = Inr \<lparr>cols = map (\<lambda>t. concat_column (label t) (Some t) na
                       (map_option fillna_column (find (\<lambda>c. label c = label t) (cols mapped))) nb)
                (cols target_df), nrows = na + nb\<rparr>"
        unfolding sl T_def [symmetric] new
        using same by (simp add: sel_def na_def)
      also have "\<dots> = Inr (merged_frame source_df target_df m)"
      proof -
        have "\<not> (set (columns (apply_mappings m source_df)) \<inter> set (columns target_df) = {} \<and>
                 nrows source_df = 0)"
          using notA empty_iff by (simp add: mapped_def T_def nb_def)
        from merged_frame_aligned [OF this False] show ?thesis
          by (simp add: mapped_def na_def nb_def)
      qed
      finally show ?thesis by (simp add: sel_def)
    qed
  qed
  have n: "length cc = card (set (columns mapped) \<inter> set T)"
    using cc_dist cc_set distinct_card by fastforce
  from sel cat n show ?thesis
    by (simp add: append_data_def Let_def mapped_def [symmetric] cc_def [symmetric]
        filled_def [symmetric] T_def [symmetric] nb_def filled)
qed

text \<open>
  When a target label is carried by two columns of the renamed source, the selection
  has a repeated label, and \<open>concat\<close> raises.
\<close>

lemma append_data_raises:
  assumes td: "distinct (columns target_df)"
    and ord: "valid_set_order set_order"
    and dup: "\<not> distinct (filter (\<lambda>c. c \<in> set (columns target_df))
                                 (columns (apply_mappings m source_df)))"
  shows "append_data set_order source_df target_df m = Inl InvalidIndexError"
proof -
  define mapped where "mapped = apply_mappings m source_df"
  define T where "T = columns target_df"
  define cc where "cc = common_cols set_order mapped target_df"
  define filled where "filled = fold fill_col cc mapped"
  define sel where "sel = filled\<lparr>cols := concat (map (\<lambda>l. filter (\<lambda>c. label c = l) (cols filled)) cc)\<rparr>"
  have cc_set: "set cc = set (columns mapped) \<inter> set T"
    using ord by (auto simp: valid_set_order_def cc_def common_cols_def T_def)
  have fcols: "columns filled = columns mapped"
    by (simp add: filled_def fold_fill_col columns_def comp_def label_fillna_column
        if_distrib [of label] cong: if_cong)
  have sel_labels: "columns sel = concat (map (\<lambda>l. filter (\<lambda>x. x = l) (columns mapped)) cc)"
    unfolding sel_def by (simp add: columns_selected fcols)
  from dup obtain c where c: "c \<in> set T" "c \<in> set (columns mapped)"
    "\<not> distinct (filter (\<lambda>x. x = c) (columns mapped))"
    using repeated_label [of "\<lambda>c. c \<in> set T" "columns mapped"]
    by (auto simp: T_def mapped_def)
  then have "filter (\<lambda>x. x = c) (columns mapped) \<in>
             set (map (\<lambda>l. filter (\<lambda>x. x = l) (columns mapped)) cc)"
    using cc_set by auto
  with c(3) have nd: "\<not> distinct (columns sel)"
    unfolding sel_labels using distinct_concat_part by blast
  then have ne: "cols sel \<noteq> []" by (auto simp: columns_def)
  from c(1) have tne: "cols target_df \<noteq> []" by (auto simp: T_def columns_def)
  from nd td have neq: "columns target_df \<noteq> columns sel" by auto
  have "select_cols cc filled = Inr sel"
    using cc_set by (auto simp: select_cols_def fcols sel_def)
  moreover have "pd_concat target_df sel = Inl InvalidIndexError"
    using nd ne tne neq by (simp add: pd_concat_def)
  ultimately show ?thesis
    by (simp add: append_data_def Let_def mapped_def [symmetric] cc_def [symmetric]
        filled_def [symmetric])
qed

subsection \<open>The merged frame, column by column and row by row\<close>


lemma promoted_refl: "promoted v v"
  by (cases v) simp_all










subsection \<open>The renaming loop\<close>

text \<open>A dictionary of the dialog's shape never makes two columns carry one label.\<close>

lemma finalized_mapping_distinct:
  "finalized_mapping (columns df) m \<Longrightarrow> distinct (columns df) \<Longrightarrow>
     distinct (columns (apply_mappings m df))"
proof (induction m df rule: apply_mappings.induct)
  case (1 df)
  then show ?case by simp
next
  case (2 t s m df)
  let ?df = "if s \<in> set (columns df) then rename s t df else df"
  from "2.prems"(1) have keys: "t \<notin> fst ` set m" "distinct (map fst m)"
    and self: "t \<in> set (columns df) \<Longrightarrow> s = t"
    and rest: "\<forall>p \<in> set m. fst p \<in> set (columns df) \<longrightarrow> snd p = fst p"
    by (auto simp: finalized_mapping_def)
  have sub: "set (columns ?df) \<subseteq> insert t (set (columns df))"
    by (auto simp: rename_columns)
  have dist: "distinct (columns ?df)"
  proof (cases "s \<in> set (columns df) \<and> s \<noteq> t")
    case True
    with self have "t \<notin> set (columns df)" by auto
    then have "inj_on (\<lambda>c. if c = s then t else c) (set (columns df))"
      by (auto simp: inj_on_def)
    with "2.prems"(2) True show ?thesis
      by (simp add: rename_columns distinct_map)
  next
    case False
    then have "columns ?df = columns df"
      by (auto simp: rename_columns map_idI)
    with "2.prems"(2) show ?thesis by simp
  qed
  have "finalized_mapping (columns ?df) m"
    unfolding finalized_mapping_def
  proof (intro conjI ballI impI)
    show "distinct (map fst m)" by (rule keys(2))
  next
    fix p assume p: "p \<in> set m" "fst p \<in> set (columns ?df)"
    with keys(1) have "fst p \<noteq> t" by auto
    with p(2) sub have "fst p \<in> set (columns df)" by auto
    with rest p(1) show "snd p = fst p" by simp
  qed
  with dist "2.IH" show ?case by simp
qed

lemma apply_mappings_append:
  "apply_mappings (a @ b) df = apply_mappings b (apply_mappings a df)"
  by (induction a df rule: apply_mappings.induct) simp_all

text \<open>A column that no entry of the dictionary renames keeps its label and its place.\<close>

lemma apply_mappings_keeps:
  "\<forall>p \<in> set m. snd p = c \<longrightarrow> fst p = c \<Longrightarrow> i < length (columns df) \<Longrightarrow>
     columns df ! i = c \<Longrightarrow> columns (apply_mappings m df) ! i = c"
proof (induction m df rule: apply_mappings.induct)
  case (1 df)
  then show ?case by simp
next
  case (2 t s m df)
  let ?df = "if s \<in> set (columns df) then rename s t df else df"
  from "2.prems" have "s = c \<Longrightarrow> t = c" by simp
  with "2.prems" have "i < length (columns ?df)" "columns ?df ! i = c"
    by (auto simp: rename_columns)
  moreover from "2.prems" have "\<forall>p \<in> set m. snd p = c \<longrightarrow> fst p = c" by simp
  ultimately show ?case using "2.IH" by simp
qed

text \<open>Once a column has been renamed away, later entries that name it are skipped.\<close>

lemma apply_mappings_absent:
  "s \<notin> set (columns df) \<Longrightarrow> s \<notin> fst ` set m \<Longrightarrow>
     apply_mappings m df = apply_mappings (filter (\<lambda>p. snd p \<noteq> s) m) df"
proof (induction m df rule: apply_mappings.induct)
  case (1 df)
  then show ?case by simp
next
  case (2 t s' m df)
  let ?df = "if s' \<in> set (columns df) then rename s' t df else df"
  from "2.prems" have t: "t \<noteq> s" and m: "s \<notin> fst ` set m" by auto
  with "2.prems"(1) have "s \<notin> set (columns ?df)"
    by (auto simp: rename_columns)
  from this m have "apply_mappings m ?df = apply_mappings (filter (\<lambda>p. snd p \<noteq> s) m) ?df"
    by (rule "2.IH")
  with "2.prems"(1) show ?case by auto
qed


text \<open>A label that is neither a column nor a key of the dictionary is never created.\<close>

lemma apply_mappings_no_new_label:
  "t \<notin> set (columns df) \<Longrightarrow> t \<notin> fst ` set m \<Longrightarrow>
     t \<notin> set (columns (apply_mappings m df))"
proof (induction m df rule: apply_mappings.induct)
  case (1 df)
  then show ?case by simp
next
  case (2 t' s m df)
  let ?df = "if s \<in> set (columns df) then rename s t' df else df"
  from "2.prems" have "t' \<noteq> t" and m: "t \<notin> fst ` set m" by auto
  with "2.prems"(1) have "t \<notin> set (columns ?df)"
    by (auto simp: rename_columns)
  from this m have "t \<notin> set (columns (apply_mappings m ?df))" by (rule "2.IH")
  then show ?case by simp
qed

subsection \<open>Whole numbers stored as floating-point numbers\<close>






text \<open>\<open>append_data\<close> returns for every dictionary of the dialog's shape.\<close>

lemma merge_returns_for_finalized:
  assumes "wf_table source_df" and "wf_table target_df"
    and "valid_set_order set_order"
    and fin: "finalized_mapping (columns source_df) m"
  shows "\<exists>merged stats. append_data set_order source_df target_df m = Inr (merged, stats)"
proof -
  from assms(1) have "distinct (columns source_df)"
    by (simp add: wf_table_def)
  with fin have "distinct (columns (apply_mappings m source_df))"
    by (simp add: finalized_mapping_distinct)
  then have "distinct (filter (\<lambda>c. c \<in> set (columns target_df))
                              (columns (apply_mappings m source_df)))"
    by simp
  moreover from assms(2) have "distinct (columns target_df)" by (simp add: wf_table_def)
  ultimately show ?thesis
    using append_data_returns [OF _ assms(3)] by blast
qed


section \<open>The merge: \<open>append_data\<close>\<close>




text \<open>
  Claim C9. Whenever \<open>append_data\<close> returns, its statistics are: \<open>source_columns\<close> the
  number of labels of the source table as read (before the renaming),
  \<open>target_columns\<close> the number of labels of the target table, \<open>mapped_columns\<close> the
  number of common columns (the length of the list of common columns, which is the size
  of the intersection of the renamed source's labels with the target's), and
  \<open>appended_rows\<close> the number of rows of the source table, whatever the number of
  common columns.
\<close>

theorem statistics_of_merge:
  assumes "valid_set_order set_order"
    and "append_data set_order source_df target_df m = Inr (merged, stats)"
  shows "source_columns stats = length (columns source_df) \<and>
         target_columns stats = length (columns target_df) \<and>
         mapped_columns stats =
           length (common_cols set_order (apply_mappings m source_df) target_df) \<and>
         mapped_columns stats =
           card (set (columns (apply_mappings m source_df)) \<inter> set (columns target_df)) \<and>
         appended_rows stats = length (rows source_df)"
proof -
  define cc where "cc = common_cols set_order (apply_mappings m source_df) target_df"
  have "distinct cc"
    and "set cc = set (columns (apply_mappings m source_df)) \<inter> set (columns target_df)"
    using assms(1) by (auto simp: cc_def common_cols_def valid_set_order_def)
  then have n: "length cc =
      card (set (columns (apply_mappings m source_df)) \<inter> set (columns target_df))"
    using distinct_card by fastforce
  from assms(2) have
    "stats = \<lparr>source_columns = length (columns source_df),
              target_columns = length (columns target_df),
              mapped_columns = length cc,
              appended_rows = nrows (fold fill_col cc (apply_mappings m source_df))\<rparr>"
    by (auto simp: append_data_def Let_def cc_def split: sum.splits)
  with n show ?thesis
    by (simp add: fold_fill_col apply_mappings_nrows length_rows cc_def)
qed

theorem statistics_of_merge_witness:
  "valid_set_order remdups \<and>
   append_data remdups
     \<lparr>cols = [\<lparr>label = ''Phone'', dtype = Float64, cells = [Flt 1, NaN]\<rparr>,
              \<lparr>label = ''Fax'', dtype = Float64, cells = [NaN, NaN]\<rparr>], nrows = 2\<rparr>
     \<lparr>cols = [\<lparr>label = ''Name'', dtype = Object, cells = [Str ''x'']\<rparr>], nrows = 1\<rparr> [] =
     Inr (\<lparr>cols = [\<lparr>label = ''Name'', dtype = Object, cells = [Str ''x'', NaN, NaN]\<rparr>],
           nrows = 3\<rparr>,
          \<lparr>source_columns = 2, target_columns = 1, mapped_columns = 0, appended_rows = 2\<rparr>) \<and>
   source_columns \<lparr>source_columns = 2, target_columns = 1, mapped_columns = 0,
                   appended_rows = 2\<rparr> = 2 \<and>
   appended_rows \<lparr>source_columns = 2, target_columns = 1, mapped_columns = 0,
                  appended_rows = 2\<rparr> =
     length (rows \<lparr>cols = [\<lparr>label = ''Phone'', dtype = Float64, cells = [Flt 1, NaN]\<rparr>,
                           \<lparr>label = ''Fax'', dtype = Float64, cells = [NaN, NaN]\<rparr>],
                   nrows = 2\<rparr>)"
proof -
  have v: "valid_set_order remdups" by (simp add: valid_set_order_def)
  have r: "append_data remdups
     \<lparr>cols = [\<lparr>label = ''Phone'', dtype = Float64, cells = [Flt 1, NaN]\<rparr>,
              \<lparr>label = ''Fax'', dtype = Float64, cells = [NaN, NaN]\<rparr>], nrows = 2\<rparr>
     \<lparr>cols = [\<lparr>label = ''Name'', dtype = Object, cells = [Str ''x'']\<rparr>], nrows = 1\<rparr> [] =
     Inr (\<lparr>cols = [\<lparr>label = ''Name'', dtype = Object, cells = [Str ''x'', NaN, NaN]\<rparr>],
           nrows = 3\<rparr>,
          \<lparr>source_columns = 2, target_columns = 1, mapped_columns = 0, appended_rows = 2\<rparr>)"
    by (simp add: append_data_def common_cols_def select_cols_def pd_concat_def
        concat_column_def part_def columns_def numeral_2_eq_2)
  from statistics_of_merge [OF v r] v r show ?thesis by simp
qed

text \<open>
  Claim C5, as the code has it. The order in which the common columns are enumerated is
  not fixed: it is the order in which the interpreter iterates over a set of strings, and
  two runs may enumerate the same common columns in different orders. The results do not
  depend on it: for well-formed tables, any two enumerations give the same outcome of
  \<open>append_data\<close>, that is the same merged table (labels, rows and cells) and the same
  statistics, or the same error.
\<close>

theorem merge_independent_of_set_order:
  assumes "wf_table source_df" and "wf_table target_df"
    and "valid_set_order order1" and "valid_set_order order2"
  shows "append_data order1 source_df target_df m = append_data order2 source_df target_df m"
proof (cases "distinct (filter (\<lambda>c. c \<in> set (columns target_df))
                               (columns (apply_mappings m source_df)))")
  case True
  from assms(2) have d: "distinct (columns target_df)" by (simp add: wf_table_def)
  from append_data_returns [OF d assms(3) True] append_data_returns [OF d assms(4) True]
  show ?thesis by simp
next
  case False
  from assms(2) have d: "distinct (columns target_df)" by (simp add: wf_table_def)
  from append_data_raises [OF d assms(3) False] append_data_raises [OF d assms(4) False]
  show ?thesis by simp
qed

theorem merge_independent_of_set_order_witness:
  "wf_table \<lparr>cols = [\<lparr>label = ''Name'', dtype = Object, cells = [Str ''a'']\<rparr>,
                     \<lparr>label = ''Email'', dtype = Float64, cells = [NaN]\<rparr>,
                     \<lparr>label = ''Phone'', dtype = Int64, cells = [Num 1]\<rparr>], nrows = 1\<rparr> \<and>
   wf_table \<lparr>cols = [\<lparr>label = ''Name'', dtype = Object, cells = [Str ''x'']\<rparr>,
                     \<lparr>label = ''Email'', dtype = Float64, cells = [NaN]\<rparr>], nrows = 1\<rparr> \<and>
   valid_set_order remdups \<and> valid_set_order (rev \<circ> remdups) \<and>
   append_data remdups
     \<lparr>cols = [\<lparr>label = ''Name'', dtype = Object, cells = [Str ''a'']\<rparr>,
              \<lparr>label = ''Email'', dtype = Float64, cells = [NaN]\<rparr>,
              \<lparr>label = ''Phone'', dtype = Int64, cells = [Num 1]\<rparr>], nrows = 1\<rparr>
     \<lparr>cols = [\<lparr>label = ''Name'', dtype = Object, cells = [Str ''x'']\<rparr>,
              \<lparr>label = ''Email'', dtype = Float64, cells = [NaN]\<rparr>], nrows = 1\<rparr>
     [(''Name'', ''Name''), (''Email'', ''Email'')] =
   append_data (rev \<circ> remdups)
     \<lparr>cols = [\<lparr>label = ''Name'', dtype = Object, cells = [Str ''a'']\<rparr>,
              \<lparr>label = ''Email'', dtype = Float64, cells = [NaN]\<rparr>,
              \<lparr>label = ''Phone'', dtype = Int64, cells = [Num 1]\<rparr>], nrows = 1\<rparr>
     \<lparr>cols = [\<lparr>label = ''Name'', dtype = Object, cells = [Str ''x'']\<rparr>,
              \<lparr>label = ''Email'', dtype = Float64, cells = [NaN]\<rparr>], nrows = 1\<rparr>
     [(''Name'', ''Name''), (''Email'', ''Email'')]"
proof -
  have s: "wf_table \<lparr>cols = [\<lparr>label = ''Name'', dtype = Object, cells = [Str ''a'']\<rparr>,
                     \<lparr>label = ''Email'', dtype = Float64, cells = [NaN]\<rparr>,
                     \<lparr>label = ''Phone'', dtype = Int64, cells = [Num 1]\<rparr>], nrows = 1\<rparr>"
    and t: "wf_table \<lparr>cols = [\<lparr>label = ''Name'', dtype = Object, cells = [Str ''x'']\<rparr>,
                     \<lparr>label = ''Email'', dtype = Float64, cells = [NaN]\<rparr>], nrows = 1\<rparr>"
    by (simp_all add: wf_table_def columns_def)
  have v: "valid_set_order remdups" and w: "valid_set_order (rev \<circ> remdups)"
    by (simp_all add: valid_set_order_def)
  from merge_independent_of_set_order [OF s t v w, of "[(''Name'', ''Name''), (''Email'', ''Email'')]"]
    s t v w show ?thesis by (simp only: simp_thms)
qed

text \<open>
  The claim as stated fails: both enumerations below are iteration orders of the same
  set, and they list the common columns of one and the same call in different orders.
\<close>

theorem common_column_order_counterexample:
  "valid_set_order remdups \<and> valid_set_order (rev \<circ> remdups) \<and>
   common_cols remdups
     (apply_mappings [(''Name'', ''Name''), (''Email'', ''Email'')]
        \<lparr>cols = [\<lparr>label = ''Name'', dtype = Object, cells = [Str ''a'']\<rparr>,
                 \<lparr>label = ''Email'', dtype = Float64, cells = [NaN]\<rparr>,
                 \<lparr>label = ''Phone'', dtype = Int64, cells = [Num 1]\<rparr>], nrows = 1\<rparr>)
     \<lparr>cols = [\<lparr>label = ''Name'', dtype = Object, cells = [Str ''x'']\<rparr>,
              \<lparr>label = ''Email'', dtype = Float64, cells = [NaN]\<rparr>], nrows = 1\<rparr> =
     [''Name'', ''Email''] \<and>
   common_cols (rev \<circ> remdups)
     (apply_mappings [(''Name'', ''Name''), (''Email'', ''Email'')]
        \<lparr>cols = [\<lparr>label = ''Name'', dtype = Object, cells = [Str ''a'']\<rparr>,
                 \<lparr>label = ''Email'', dtype = Float64, cells = [NaN]\<rparr>,
                 \<lparr>label = ''Phone'', dtype = Int64, cells = [Num 1]\<rparr>], nrows = 1\<rparr>)
     \<lparr>cols = [\<lparr>label = ''Name'', dtype = Object, cells = [Str ''x'']\<rparr>,
              \<lparr>label = ''Email'', dtype = Float64, cells = [NaN]\<rparr>], nrows = 1\<rparr> =
     [''Email'', ''Name''] \<and>
   common_cols remdups
     (apply_mappings [(''Name'', ''Name''), (''Email'', ''Email'')]
        \<lparr>cols = [\<lparr>label = ''Name'', dtype = Object, cells = [Str ''a'']\<rparr>,
                 \<lparr>label = ''Email'', dtype = Float64, cells = [NaN]\<rparr>,
                 \<lparr>label = ''Phone'', dtype = Int64, cells = [Num 1]\<rparr>], nrows = 1\<rparr>)
     \<lparr>cols = [\<lparr>label = ''Name'', dtype = Object, cells = [Str ''x'']\<rparr>,
              \<lparr>label = ''Email'', dtype = Float64, cells = [NaN]\<rparr>], nrows = 1\<rparr> \<noteq>
   common_cols (rev \<circ> remdups)
     (apply_mappings [(''Name'', ''Name''), (''Email'', ''Email'')]
        \<lparr>cols = [\<lparr>label = ''Name'', dtype = Object, cells = [Str ''a'']\<rparr>,
                 \<lparr>label = ''Email'', dtype = Float64, cells = [NaN]\<rparr>,
                 \<lparr>label = ''Phone'', dtype = Int64, cells = [Num 1]\<rparr>], nrows = 1\<rparr>)
     \<lparr>cols = [\<lparr>label = ''Name'', dtype = Object, cells = [Str ''x'']\<rparr>,
              \<lparr>label = ''Email'', dtype = Float64, cells = [NaN]\<rparr>], nrows = 1\<rparr>"
  by (simp add: valid_set_order_def common_cols_def rename_def columns_def)

text \<open>
  Claim C2, as the code has it. The renaming is a move, not a copy: the renamed source
  has the cells of the source and as many columns, each under one label. Take a column
  of the source labelled \<open>s\<close>, a dictionary in which no entry before \<open>(t1, s)\<close> renames
  \<open>s\<close> to another name, and \<open>t1\<close> another name than \<open>s\<close>. Then the entry \<open>(t1, s)\<close>
  takes the column: after it the column is labelled \<open>t1\<close> and no column is labelled
  \<open>s\<close>. When no later entry has \<open>s\<close> as its key, every later entry that names \<open>s\<close>
  is skipped (the renamed source is the one the dictionary without those entries gives),
  \<open>s\<close> is not a label of the renamed source, the column is still labelled \<open>t1\<close> at the
  end unless a later entry renames \<open>t1\<close>, and a later target column \<open>t2\<close> that names
  \<open>s\<close> and is not itself a source column is not a label of the renamed source: it
  receives nothing.
\<close>

theorem rename_moves_column:
  assumes "i < length (columns df)" and "columns df ! i = s"
    and "\<forall>p \<in> set pre. snd p = s \<longrightarrow> fst p = s"
    and "t1 \<noteq> s"
    and "s \<notin> fst ` set rest"
    and "distinct (map fst (pre @ (t1, s) # rest))"
  shows "map cells (cols (apply_mappings (pre @ (t1, s) # rest) df)) = map cells (cols df) \<and>
         rows (apply_mappings (pre @ (t1, s) # rest) df) = rows df \<and>
         length (columns (apply_mappings (pre @ (t1, s) # rest) df)) = length (columns df) \<and>
         columns (apply_mappings pre df) ! i = s \<and>
         columns (apply_mappings (pre @ [(t1, s)]) df) ! i = t1 \<and>
         s \<notin> set (columns (apply_mappings (pre @ [(t1, s)]) df)) \<and>
         apply_mappings (pre @ (t1, s) # rest) df =
           apply_mappings (pre @ (t1, s) # filter (\<lambda>p. snd p \<noteq> s) rest) df \<and>
         s \<notin> set (columns (apply_mappings (pre @ (t1, s) # rest) df)) \<and>
         ((\<forall>p \<in> set rest. snd p \<noteq> t1) \<longrightarrow>
            columns (apply_mappings (pre @ (t1, s) # rest) df) ! i = t1) \<and>
         (\<forall>t2. (t2, s) \<in> set rest \<and> t2 \<notin> set (columns df) \<longrightarrow>
            t2 \<notin> set (columns (apply_mappings (pre @ (t1, s) # rest) df)))"
proof -
  define X where "X = apply_mappings pre df"
  define Y where "Y = rename s t1 X"
  define R where "R = apply_mappings (pre @ (t1, s) # rest) df"
  have lX: "length (columns X) = length (columns df)"
    by (simp add: X_def apply_mappings_length)
  have Xi: "columns X ! i = s"
    unfolding X_def using assms(3) assms(1) assms(2) by (rule apply_mappings_keeps)
  with assms(1) lX have sX: "s \<in> set (columns X)" by (metis nth_mem)
  then have one: "apply_mappings (pre @ [(t1, s)]) df = Y"
    by (simp add: apply_mappings_append X_def Y_def)
  from sX have R: "R = apply_mappings rest Y"
    by (simp add: R_def apply_mappings_append X_def Y_def)
  from sX have Rf: "apply_mappings (pre @ (t1, s) # filter (\<lambda>p. snd p \<noteq> s) rest) df =
      apply_mappings (filter (\<lambda>p. snd p \<noteq> s) rest) Y"
    by (simp add: apply_mappings_append X_def Y_def)
  have lY: "length (columns Y) = length (columns df)"
    by (simp add: Y_def rename_columns lX)
  from Xi assms(1) lX have Yi: "columns Y ! i = t1"
    by (simp add: Y_def rename_columns)
  from assms(4) have sY: "s \<notin> set (columns Y)"
    by (auto simp: Y_def rename_columns)
  from sY assms(5) have skip: "R = apply_mappings (filter (\<lambda>p. snd p \<noteq> s) rest) Y"
    unfolding R by (rule apply_mappings_absent)
  from sY assms(5) have sR: "s \<notin> set (columns R)"
    unfolding R by (rule apply_mappings_no_new_label)
  have last: "columns R ! i = t1" if "\<forall>p \<in> set rest. snd p \<noteq> t1"
  proof -
    from that have "\<forall>p \<in> set rest. snd p = t1 \<longrightarrow> fst p = t1" by simp
    from this _ Yi show ?thesis
      unfolding R using assms(1) lY by (intro apply_mappings_keeps) simp_all
  qed
  have unused: "t2 \<notin> set (columns R)" if t2: "(t2, s) \<in> set rest" "t2 \<notin> set (columns df)" for t2
  proof -
    from t2(1) have k: "t2 \<in> fst ` set rest" by force
    with assms(6) have ne: "t2 \<noteq> t1" and np: "t2 \<notin> fst ` set pre" by auto
    from assms(6) have dr: "distinct (map fst rest)" by simp
    have nf: "t2 \<notin> fst ` set (filter (\<lambda>p. snd p \<noteq> s) rest)"
    proof
      assume "t2 \<in> fst ` set (filter (\<lambda>p. snd p \<noteq> s) rest)"
      then obtain s' where s': "(t2, s') \<in> set rest" "s' \<noteq> s" by auto
      from dr t2(1) s'(1) have "s' = s" by (metis eq_key_imp_eq_value)
      with s'(2) show False by simp
    qed
    from t2(2) np have "t2 \<notin> set (columns X)"
      unfolding X_def by (rule apply_mappings_no_new_label)
    with ne have "t2 \<notin> set (columns Y)"
      by (auto simp: Y_def rename_columns)
    from this nf show ?thesis
      unfolding skip by (rule apply_mappings_no_new_label)
  qed
  have c: "map cells (cols R) = map cells (cols df)"
    by (simp add: R_def apply_mappings_cells)
  have r: "rows R = rows df" by (simp add: R_def apply_mappings_rows)
  have l: "length (columns R) = length (columns df)" by (simp add: R_def apply_mappings_length)
  show ?thesis
    unfolding one Rf R_def [symmetric] X_def [symmetric]
  proof (intro conjI impI allI)
    show "map cells (cols R) = map cells (cols df)" by (rule c)
    show "rows R = rows df" by (rule r)
    show "length (columns R) = length (columns df)" by (rule l)
    show "columns X ! i = s" by (rule Xi)
    show "columns Y ! i = t1" by (rule Yi)
    show "s \<notin> set (columns Y)" by (rule sY)
    show "R = apply_mappings (filter (\<lambda>p. snd p \<noteq> s) rest) Y" by (rule skip)
    show "s \<notin> set (columns R)" by (rule sR)
  next
    assume "\<forall>p \<in> set rest. snd p \<noteq> t1"
    then show "columns R ! i = t1" by (rule last)
  next
    fix t2 assume "(t2, s) \<in> set rest \<and> t2 \<notin> set (columns df)"
    then have "(t2, s) \<in> set rest" and "t2 \<notin> set (columns df)" by simp_all
    then show "t2 \<notin> set (columns R)" by (rule unused)
  qed
qed

theorem rename_moves_column_witness:
  "(1::nat) < length (columns \<lparr>cols = [\<lparr>label = ''Name'', dtype = Object, cells = [Str ''n'']\<rparr>,
                                      \<lparr>label = ''Email'', dtype = Object, cells = [Str ''a@b'']\<rparr>],
                              nrows = 1\<rparr>) \<and>
   columns \<lparr>cols = [\<lparr>label = ''Name'', dtype = Object, cells = [Str ''n'']\<rparr>,
                    \<lparr>label = ''Email'', dtype = Object, cells = [Str ''a@b'']\<rparr>],
            nrows = 1\<rparr> ! 1 = ''Email'' \<and>
   ''E-mail'' \<noteq> ''Email'' \<and> ''Email'' \<notin> fst ` set [(''Mail'', ''Email'')] \<and>
   distinct (map fst ([(''Name'', ''Name'')] @ (''E-mail'', ''Email'') # [(''Mail'', ''Email'')])) \<and>
   rows (apply_mappings [(''Name'', ''Name''), (''E-mail'', ''Email''), (''Mail'', ''Email'')]
           \<lparr>cols = [\<lparr>label = ''Name'', dtype = Object, cells = [Str ''n'']\<rparr>,
                    \<lparr>label = ''Email'', dtype = Object, cells = [Str ''a@b'']\<rparr>],
            nrows = 1\<rparr>) = [[Str ''n'', Str ''a@b'']] \<and>
   columns (apply_mappings [(''Name'', ''Name''), (''E-mail'', ''Email''), (''Mail'', ''Email'')]
           \<lparr>cols = [\<lparr>label = ''Name'', dtype = Object, cells = [Str ''n'']\<rparr>,
                    \<lparr>label = ''Email'', dtype = Object, cells = [Str ''a@b'']\<rparr>],
            nrows = 1\<rparr>) ! 1 = ''E-mail'' \<and>
   ''Email'' \<notin> set (columns
      (apply_mappings [(''Name'', ''Name''), (''E-mail'', ''Email''), (''Mail'', ''Email'')]
           \<lparr>cols = [\<lparr>label = ''Name'', dtype = Object, cells = [Str ''n'']\<rparr>,
                    \<lparr>label = ''Email'', dtype = Object, cells = [Str ''a@b'']\<rparr>],
            nrows = 1\<rparr>)) \<and>
   ''Mail'' \<notin> set (columns
      (apply_mappings [(''Name'', ''Name''), (''E-mail'', ''Email''), (''Mail'', ''Email'')]
           \<lparr>cols = [\<lparr>label = ''Name'', dtype = Object, cells = [Str ''n'']\<rparr>,
                    \<lparr>label = ''Email'', dtype = Object, cells = [Str ''a@b'']\<rparr>],
            nrows = 1\<rparr>))"
proof -
  let ?S = "\<lparr>cols = [\<lparr>label = ''Name'', dtype = Object, cells = [Str ''n'']\<rparr>,
                  \<lparr>label = ''Email'', dtype = Object, cells = [Str ''a@b'']\<rparr>],
            nrows = 1\<rparr>"
  have a: "(1::nat) < length (columns ?S)" and b: "columns ?S ! 1 = ''Email''"
    by (simp_all add: columns_def)
  have c: "\<forall>p \<in> set [(''Name'', ''Name'')]. snd p = ''Email'' \<longrightarrow> fst p = ''Email''"
    by simp
  have d: "''E-mail'' \<noteq> ''Email''" and e: "''Email'' \<notin> fst ` set [(''Mail'', ''Email'')]"
    and f: "distinct (map fst ([(''Name'', ''Name'')] @ (''E-mail'', ''Email'') #
                                [(''Mail'', ''Email'')]))"
    by simp_all
  have g: "rows ?S = [[Str ''n'', Str ''a@b'']]" by (simp add: rows_def)
  have h: "\<forall>p \<in> set [(''Mail'', ''Email'')]. snd p \<noteq> ''E-mail''" by simp
  have k: "(''Mail'', ''Email'') \<in> set [(''Mail'', ''Email'')] \<and> ''Mail'' \<notin> set (columns ?S)"
    by (simp add: columns_def)
  from rename_moves_column [OF a b c d e f] g h k a b d e f show ?thesis
    by (simp add: rename_def columns_def rows_def)
qed

text \<open>
  The claim as stated fails: with the source column \<open>Email\<close> referenced by the two target
  columns \<open>E-mail\<close> and \<open>Mail\<close>, the renamed source has the column under \<open>E-mail\<close> only,
  and \<open>Mail\<close> is not one of its labels.
\<close>

theorem fan_out_counterexample:
  "columns (apply_mappings [(''E-mail'', ''Email''), (''Mail'', ''Email'')]
              \<lparr>cols = [\<lparr>label = ''Name'', dtype = Object, cells = [Str ''n'']\<rparr>,
                       \<lparr>label = ''Email'', dtype = Object, cells = [Str ''a@b'']\<rparr>],
               nrows = 1\<rparr>) = [''Name'', ''E-mail''] \<and>
   ''Mail'' \<notin> set (columns (apply_mappings [(''E-mail'', ''Email''), (''Mail'', ''Email'')]
              \<lparr>cols = [\<lparr>label = ''Name'', dtype = Object, cells = [Str ''n'']\<rparr>,
                       \<lparr>label = ''Email'', dtype = Object, cells = [Str ''a@b'']\<rparr>],
               nrows = 1\<rparr>))"
  by (simp add: rename_def columns_def)




section \<open>Facts about the dialog\<close>

lemma map_of_dict_set: "map_of (dict_set k v d) = (map_of d)(k \<mapsto> v)"
  by (induction k v d rule: dict_set.induct) (auto simp: fun_eq_iff)

lemma keys_dict_set: "fst ` set (dict_set k v d) = insert k (fst ` set d)"
  by (induction k v d rule: dict_set.induct) auto

lemma set_dict_set: "set (dict_set k v d) \<subseteq> insert (k, v) (set d)"
  by (induction k v d rule: dict_set.induct) auto

lemma distinct_dict_set: "distinct (map fst d) \<Longrightarrow> distinct (map fst (dict_set k v d))"
proof (induction d)
  case Nil
  then show ?case by simp
next
  case (Cons p d)
  obtain k' v' where p: "p = (k', v')" by (cases p)
  show ?case
  proof (cases "k' = k")
    case True
    with Cons.prems p show ?thesis by simp
  next
    case False
    have "k' \<notin> fst ` set (dict_set k v d)"
      using Cons.prems p False by (simp add: keys_dict_set)
    with Cons p False show ?thesis by simp
  qed
qed

lemma tree_load_column:
  "mapping_tree (load_column scorer source_cols t d) =
     mapping_tree d @ [initial_row scorer source_cols t]"
  by (simp add: load_column_def initial_row_def Let_def)

lemma mappings_load_column:
  "manual_mappings (load_column scorer source_cols t d) =
     (if t \<in> set source_cols then dict_set t t (manual_mappings d) else manual_mappings d)"
  by (simp add: load_column_def Let_def)

lemma tree_load_mappings:
  "mapping_tree (load_mappings scorer source_cols target_cols d) =
     mapping_tree d @ map (initial_row scorer source_cols) target_cols"
  unfolding load_mappings_def
  by (induction target_cols arbitrary: d) (simp_all add: tree_load_column)

lemma map_of_load_mappings:
  "map_of (manual_mappings (load_mappings scorer source_cols target_cols d)) t =
     (if t \<in> set target_cols \<and> t \<in> set source_cols then Some t
      else map_of (manual_mappings d) t)"
  unfolding load_mappings_def
  by (induction target_cols arbitrary: d)
     (auto simp: mappings_load_column map_of_dict_set)

lemma distinct_load_mappings:
  "distinct (map fst (manual_mappings d)) \<Longrightarrow>
     distinct (map fst (manual_mappings (load_mappings scorer source_cols target_cols d)))"
  unfolding load_mappings_def
  by (induction target_cols arbitrary: d)
     (simp_all add: mappings_load_column distinct_dict_set)

lemma set_load_mappings:
  "set (manual_mappings (load_mappings scorer source_cols target_cols d)) \<subseteq>
     set (manual_mappings d) \<union> {(t, t) | t. t \<in> set source_cols}"
  unfolding load_mappings_def
proof (induction target_cols arbitrary: d)
  case Nil
  then show ?case by simp
next
  case (Cons t ts)
  have "set (manual_mappings (load_column scorer source_cols t d)) \<subseteq>
          set (manual_mappings d) \<union> {(t, t) | t. t \<in> set source_cols}"
    using set_dict_set [of t t "manual_mappings d"]
    by (auto simp: mappings_load_column)
  with Cons.IH [of "load_column scorer source_cols t d"] show ?case by auto
qed

subsection \<open>The best matches\<close>

lemma sorted_scored:
  "sorted_wrt (\<lambda>a b. snd b \<le> snd a) (sort_key (\<lambda>m. - snd m) (xs :: (string \<times> int) list))"
proof -
  have "sorted (map (\<lambda>m. - snd m) (sort_key (\<lambda>m. - snd m) xs))"
    by (rule sorted_sort_key)
  then show ?thesis by (simp add: sorted_map)
qed

lemma process_extract_top:
  "\<exists>rest. mset (process_extract scorer q choices k @ rest) =
             mset (map (\<lambda>c. (c, scorer q c)) choices) \<and>
          sorted_wrt (\<lambda>a b. snd b \<le> snd a) (process_extract scorer q choices k @ rest)"
proof -
  let ?ys = "sort_key (\<lambda>m. - snd m) (map (\<lambda>c. (c, scorer q c)) choices)"
  have "process_extract scorer q choices k @ drop k ?ys = ?ys"
    by (simp add: process_extract_def)
  moreover have "mset ?ys = mset (map (\<lambda>c. (c, scorer q c)) choices)" by simp
  moreover have "sorted_wrt (\<lambda>a b. snd b \<le> snd a) ?ys" by (rule sorted_scored)
  ultimately show ?thesis by metis
qed

lemma length_process_extract:
  "length (process_extract scorer q choices k) = min k (length choices)"
  by (simp add: process_extract_def min.commute)

lemma set_process_extract:
  "set (process_extract scorer q choices k) \<subseteq> (\<lambda>c. (c, scorer q c)) ` set choices"
proof -
  have "set (process_extract scorer q choices k) \<subseteq>
        set (sort_key (\<lambda>m. - snd m) (map (\<lambda>c. (c, scorer q c)) choices))"
    unfolding process_extract_def by (rule set_take_subset)
  then show ?thesis by simp
qed

lemma suggestions_in_source:
  "set (map fst (filter P (process_extract scorer q choices k))) \<subseteq> set choices"
  using set_process_extract [of scorer q choices k] by auto

lemma kept_nonempty_iff:
  "filter (\<lambda>m. 60 \<le> snd m) (process_extract scorer q choices (Suc k)) \<noteq> [] \<longleftrightarrow>
     (\<exists>c \<in> set choices. 60 \<le> scorer q c)"
proof
  assume "filter (\<lambda>m. 60 \<le> snd m) (process_extract scorer q choices (Suc k)) \<noteq> []"
  then obtain m where "m \<in> set (process_extract scorer q choices (Suc k))" "60 \<le> snd m"
    by (auto simp: filter_empty_conv)
  moreover from this(1) set_process_extract [of scorer q choices "Suc k"]
  obtain c where "c \<in> set choices" "m = (c, scorer q c)" by blast
  ultimately show "\<exists>c \<in> set choices. 60 \<le> scorer q c"
    by auto
next
  let ?ys = "sort_key (\<lambda>m. - snd m) (map (\<lambda>c. (c, scorer q c)) choices)"
  assume "\<exists>c \<in> set choices. 60 \<le> scorer q c"
  then obtain c where c: "c \<in> set choices" "60 \<le> scorer q c" by blast
  then have mem: "(c, scorer q c) \<in> set ?ys" by auto
  then obtain y ys where ys: "?ys = y # ys" by (cases ?ys) auto
  have "sorted_wrt (\<lambda>a b. snd b \<le> snd a) ?ys" by (rule sorted_scored)
  with ys mem have "scorer q c \<le> snd y" by auto
  with c(2) have "60 \<le> snd y" by simp
  moreover have "y \<in> set (process_extract scorer q choices (Suc k))"
    by (simp add: process_extract_def ys)
  ultimately show "filter (\<lambda>m. 60 \<le> snd m) (process_extract scorer q choices (Suc k)) \<noteq> []"
    by (auto simp: filter_empty_conv)
qed

lemma tree_dialog:
  "mapping_tree (MappingReviewDialog scorer source_cols target_cols) =
     map (initial_row scorer source_cols) target_cols"
  by (simp add: MappingReviewDialog_def tree_load_mappings)

lemma map_of_dialog:
  "map_of (manual_mappings (MappingReviewDialog scorer source_cols target_cols)) t =
     (if t \<in> set target_cols \<and> t \<in> set source_cols then Some t else None)"
  by (simp add: MappingReviewDialog_def map_of_load_mappings)

section \<open>The initial mapping: \<open>load_mappings\<close>\<close>

text \<open>
  Claim C6. For every target column whose name occurs identically in the source header,
  the constructed dialog has for it a row showing that same name as the source column
  and carrying no dropdown, and its dictionary maps the target column to that same name:
  in the words of the specification, the entry has status Exact, its chosen source
  column is that name, and its candidate list is empty.
\<close>

theorem exact_match_entry:
  assumes "i < length target_cols" and "target_cols ! i \<in> set source_cols"
  shows "mapping_tree (MappingReviewDialog scorer source_cols target_cols) ! i =
           \<lparr>text0 = target_cols ! i, text1 = target_cols ! i, widget = None\<rparr> \<and>
         map_of (get_manual_mappings (MappingReviewDialog scorer source_cols target_cols))
           (target_cols ! i) = Some (target_cols ! i) \<and>
         entry_status (MappingReviewDialog scorer source_cols target_cols)
           (mapping_tree (MappingReviewDialog scorer source_cols target_cols) ! i) = Exact \<and>
         chosen_source_column (MappingReviewDialog scorer source_cols target_cols)
           (mapping_tree (MappingReviewDialog scorer source_cols target_cols) ! i) =
           Some (target_cols ! i) \<and>
         candidates (mapping_tree (MappingReviewDialog scorer source_cols target_cols) ! i) = []"
proof -
  let ?d = "MappingReviewDialog scorer source_cols target_cols"
  have row: "mapping_tree ?d ! i =
               \<lparr>text0 = target_cols ! i, text1 = target_cols ! i, widget = None\<rparr>"
    using assms by (simp add: tree_dialog initial_row_def)
  have entry: "map_of (manual_mappings ?d) (target_cols ! i) = Some (target_cols ! i)"
    using assms by (simp add: map_of_dialog)
  from row entry show ?thesis
    by (simp add: get_manual_mappings_def entry_status_def chosen_source_column_def
        candidates_def)
qed

theorem exact_match_entry_witness:
  "(1::nat) < length [''Id'', ''Name''] \<and> [''Id'', ''Name''] ! 1 \<in> set [''Name'', ''Email''] \<and>
   mapping_tree (MappingReviewDialog demo_scorer [''Name'', ''Email''] [''Id'', ''Name'']) ! 1 =
     \<lparr>text0 = ''Name'', text1 = ''Name'', widget = None\<rparr> \<and>
   map_of (get_manual_mappings (MappingReviewDialog demo_scorer [''Name'', ''Email''] [''Id'', ''Name'']))
     ''Name'' = Some ''Name'' \<and>
   entry_status (MappingReviewDialog demo_scorer [''Name'', ''Email''] [''Id'', ''Name''])
     (mapping_tree (MappingReviewDialog demo_scorer [''Name'', ''Email''] [''Id'', ''Name'']) ! 1) = Exact"
  using exact_match_entry [of 1 "[''Id'', ''Name'']" "[''Name'', ''Email'']" demo_scorer]
  by auto

text \<open>
  Claim C7. For every target column with no exact match in the source header, the
  constructed dialog has a row that shows it as not mapped and carries a dropdown whose
  entries, after the placeholder, are the source columns among the five best fuzzy
  matches that score at least 60; the dictionary has no entry for the target column. In
  the words of the specification: the candidates are the five best matches filtered to
  score at least 60, the status is Suggested when that list is non-empty and Unmapped
  otherwise, and no source column is chosen. The five best matches are the first five
  (or all, when there are fewer) of the scored source columns in descending order of
  score, and the filtered list is non-empty exactly when some source column scores at
  least 60.
\<close>

theorem fuzzy_match_entry:
  assumes "i < length target_cols" and "target_cols ! i \<notin> set source_cols"
  shows "mapping_tree (MappingReviewDialog scorer source_cols target_cols) ! i =
           \<lparr>text0 = target_cols ! i, text1 = ''Not Mapped'',
            widget = Some \<lparr>items = ''Select mapping...'' #
                map fst (filter (\<lambda>m. 60 \<le> snd m)
                           (process_extract scorer (target_cols ! i) source_cols 5)),
              currentIndex = 0\<rparr>\<rparr> \<and>
         candidates (mapping_tree (MappingReviewDialog scorer source_cols target_cols) ! i) =
           map fst (filter (\<lambda>m. 60 \<le> snd m)
                      (process_extract scorer (target_cols ! i) source_cols 5)) \<and>
         chosen_source_column (MappingReviewDialog scorer source_cols target_cols)
           (mapping_tree (MappingReviewDialog scorer source_cols target_cols) ! i) = None \<and>
         entry_status (MappingReviewDialog scorer source_cols target_cols)
           (mapping_tree (MappingReviewDialog scorer source_cols target_cols) ! i) =
           (if filter (\<lambda>m. 60 \<le> snd m)
                 (process_extract scorer (target_cols ! i) source_cols 5) \<noteq> []
            then Suggested else Unmapped) \<and>
         length (process_extract scorer (target_cols ! i) source_cols 5) =
           min 5 (length source_cols) \<and>
         (\<exists>rest. mset (process_extract scorer (target_cols ! i) source_cols 5 @ rest) =
                   mset (map (\<lambda>c. (c, scorer (target_cols ! i) c)) source_cols) \<and>
                 sorted_wrt (\<lambda>a b. snd b \<le> snd a)
                   (process_extract scorer (target_cols ! i) source_cols 5 @ rest)) \<and>
         (filter (\<lambda>m. 60 \<le> snd m) (process_extract scorer (target_cols ! i) source_cols 5) \<noteq> []
            \<longleftrightarrow> (\<exists>c \<in> set source_cols. 60 \<le> scorer (target_cols ! i) c))"
proof -
  let ?d = "MappingReviewDialog scorer source_cols target_cols"
  let ?kept = "filter (\<lambda>m. 60 \<le> snd m) (process_extract scorer (target_cols ! i) source_cols 5)"
  have row: "mapping_tree ?d ! i =
               \<lparr>text0 = target_cols ! i, text1 = ''Not Mapped'',
                widget = Some \<lparr>items = ''Select mapping...'' # map fst ?kept, currentIndex = 0\<rparr>\<rparr>"
    using assms by (simp add: tree_dialog initial_row_def)
  have none: "map_of (manual_mappings ?d) (target_cols ! i) = None"
    using assms by (simp add: map_of_dialog)
  have cand: "candidates (mapping_tree ?d ! i) = map fst ?kept"
    by (simp add: row candidates_def)
  have chosen: "chosen_source_column ?d (mapping_tree ?d ! i) = None"
    by (simp add: row chosen_source_column_def none)
  have status: "entry_status ?d (mapping_tree ?d ! i) =
                  (if ?kept \<noteq> [] then Suggested else Unmapped)"
    using chosen cand by (simp add: entry_status_def row)
  have iff: "?kept \<noteq> [] \<longleftrightarrow> (\<exists>c \<in> set source_cols. 60 \<le> scorer (target_cols ! i) c)"
    using kept_nonempty_iff [of scorer "target_cols ! i" source_cols 4]
    by (simp add: eval_nat_numeral)
  from row cand chosen status iff
    length_process_extract [of scorer "target_cols ! i" source_cols 5]
    process_extract_top [of scorer "target_cols ! i" source_cols 5]
  show ?thesis by blast
qed

theorem fuzzy_match_entry_witness:
  "(1::nat) < length [''Name'', ''E-mail''] \<and>
   [''Name'', ''E-mail''] ! 1 \<notin> set [''Name'', ''Email''] \<and>
   mapping_tree (MappingReviewDialog demo_scorer
                   [''Name'', ''Email''] [''Name'', ''E-mail'']) ! 1 =
     \<lparr>text0 = ''E-mail'', text1 = ''Not Mapped'',
      widget = Some \<lparr>items = [''Select mapping...'', ''Email''], currentIndex = 0\<rparr>\<rparr> \<and>
   chosen_source_column
     (MappingReviewDialog demo_scorer
        [''Name'', ''Email''] [''Name'', ''E-mail''])
     (mapping_tree (MappingReviewDialog demo_scorer
                      [''Name'', ''Email''] [''Name'', ''E-mail'']) ! 1) = None \<and>
   entry_status
     (MappingReviewDialog demo_scorer
        [''Name'', ''Email''] [''Name'', ''E-mail''])
     (mapping_tree (MappingReviewDialog demo_scorer
                      [''Name'', ''Email''] [''Name'', ''E-mail'']) ! 1) = Suggested"
proof -
  let ?sc = demo_scorer
  have a: "(1::nat) < length [''Name'', ''E-mail'']" by simp
  have b: "[''Name'', ''E-mail''] ! 1 \<notin> set [''Name'', ''Email'']" by simp
  have e: "process_extract ?sc ''E-mail'' [''Name'', ''Email''] 5 =
             [(''Email'', 91), (''Name'', 45)]"
    by (simp add: process_extract_def demo_scorer_def)
  note inst = fuzzy_match_entry [OF a b, of ?sc]
  have n: "[''Name'', ''E-mail''] ! 1 = ''E-mail''" by simp
  from inst have
    "mapping_tree (MappingReviewDialog ?sc [''Name'', ''Email''] [''Name'', ''E-mail'']) ! 1 =
       \<lparr>text0 = ''E-mail'', text1 = ''Not Mapped'',
        widget = Some \<lparr>items = [''Select mapping...'', ''Email''], currentIndex = 0\<rparr>\<rparr>"
    and "chosen_source_column (MappingReviewDialog ?sc [''Name'', ''Email''] [''Name'', ''E-mail''])
       (mapping_tree (MappingReviewDialog ?sc [''Name'', ''Email''] [''Name'', ''E-mail'']) ! 1) = None"
    and "entry_status (MappingReviewDialog ?sc [''Name'', ''Email''] [''Name'', ''E-mail''])
       (mapping_tree (MappingReviewDialog ?sc [''Name'', ''Email''] [''Name'', ''E-mail'']) ! 1) =
       Suggested"
    unfolding n e by auto
  with a b show ?thesis by (simp only: simp_thms)
qed
section \<open>Repeated names in a header\<close>

lemma mangle_loop_zero: "mangle_loop this_columns old_col counts 0 col = Some (col, 0, counts)"
  by (subst mangle_loop.simps) simp

lemma show_nat_1: "show_nat (Suc 0) = ''1''"
  by (subst show_nat.simps) simp

text \<open>The first repetition of a text: the label is the text followed by \<open>.1\<close>.\<close>

lemma mangle_loop_first_repeat:
  assumes "old_col @ ''.1'' \<notin> set this_columns" and "counts (old_col @ ''.1'') = 0"
  shows "mangle_loop this_columns old_col counts 1 col =
           Some (old_col @ ''.1'', 0, counts(old_col := 2))"
proof -
  have ne: "old_col @ ''.1'' \<noteq> old_col" by simp
  have "mangle_loop this_columns old_col counts 1 col =
        mangle_loop this_columns old_col (counts(old_col := 2))
          ((counts(old_col := 2)) (old_col @ ''.1'')) (old_col @ ''.1'')"
    using assms(1) by (subst mangle_loop.simps) (simp add: show_nat_1 numeral_2_eq_2)
  also have "(counts(old_col := 2)) (old_col @ ''.1'') = 0"
    using assms(2) ne by simp
  finally show ?thesis by (simp only: mangle_loop_zero)
qed

lemma dedup_loop_append:
  "dedup_loop (a @ b) st =
     (case dedup_loop a st of None \<Rightarrow> None | Some st' \<Rightarrow> dedup_loop b st')"
proof (induction a st rule: dedup_loop.induct)
  case (1 st)
  then show ?case by simp
next
  case (2 i col_loop_order this_columns counts)
  then show ?case by (auto split: option.splits)
qed

text \<open>Columns with texts that no label has yet keep their texts.\<close>

lemma dedup_loop_fresh:
  assumes "\<forall>i \<in> set order. i < length this_columns"
    and "distinct (map ((!) this_columns) order)"
    and "\<forall>i \<in> set order. counts (this_columns ! i) = 0"
  shows "dedup_loop order (this_columns, counts) =
           Some (this_columns,
                 \<lambda>c. if c \<in> (!) this_columns ` set order then 1 else counts c)"
  using assms
proof (induction order arbitrary: counts)
  case Nil
  then show ?case by simp
next
  case (Cons i order)
  let ?c = "this_columns ! i"
  let ?counts = "counts(?c := 1)"
  from Cons.prems have z: "counts ?c = 0" by simp
  from Cons.prems(2) have "\<forall>j \<in> set order. this_columns ! j \<noteq> ?c"
    by (auto simp: image_iff)
  with Cons.prems(3) have "\<forall>j \<in> set order. ?counts (this_columns ! j) = 0"
    by simp
  moreover from Cons.prems have "\<forall>j \<in> set order. j < length this_columns"
    and "distinct (map ((!) this_columns) order)"
    by simp_all
  ultimately have "dedup_loop order (this_columns, ?counts) =
      Some (this_columns, \<lambda>c. if c \<in> (!) this_columns ` set order then 1 else ?counts c)"
    by (intro Cons.IH) simp_all
  moreover have "(\<lambda>c. if c \<in> (!) this_columns ` set order then 1 else ?counts c) =
                 (\<lambda>c. if c \<in> (!) this_columns ` set (i # order) then 1 else counts c)"
    by (rule ext) auto
  ultimately show ?case
    by (simp add: z mangle_loop_zero)
qed

lemma map_nth_self: "map ((!) xs) [0..<length xs] = xs"
  by (rule map_nth)

lemma read_excel_columns_named:
  assumes "[] \<notin> set line"
  shows "read_excel_columns line =
           map_option fst (dedup_loop [0..<length line] (line, \<lambda>c. 0))"
proof -
  from assms have ne: "\<forall>i \<in> set [0..<length line]. line ! i \<noteq> []"
    by (auto simp: in_set_conv_nth)
  then have a: "map (\<lambda>i. if line ! i = [] then ''Unnamed: '' @ show_nat i else line ! i)
                   [0..<length line] = line"
    by (intro nth_equalityI) simp_all
  from ne have b: "filter (\<lambda>i. line ! i = []) [0..<length line] = []"
    by (simp add: filter_empty_conv)
  show ?thesis
    unfolding read_excel_columns_def Let_def a b by simp
qed

text \<open>A header of different texts is read as it stands.\<close>

lemma read_excel_columns_distinct:
  assumes "distinct line" and "[] \<notin> set line"
  shows "read_excel_columns line = Some line"
proof -
  have "dedup_loop [0..<length line] (line, \<lambda>c. 0) =
          Some (line, \<lambda>c. if c \<in> (!) line ` set [0..<length line] then 1 else 0)"
    using assms(1) by (intro dedup_loop_fresh) (simp_all add: map_nth)
  with assms(2) show ?thesis by (simp add: read_excel_columns_named)
qed

text \<open>
  A header of different texts followed by a repetition \<open>x\<close> of one of them: the
  repetition is labelled \<open>x.1\<close>.
\<close>

lemma read_excel_columns_repeated:
  assumes "distinct ys" and "[] \<notin> set ys" and "x \<in> set ys" and "x @ ''.1'' \<notin> set ys"
  shows "read_excel_columns (ys @ [x]) = Some (ys @ [x @ ''.1''])"
proof -
  let ?line = "ys @ [x]"
  let ?n = "length ys"
  let ?counts = "\<lambda>c. if c \<in> (!) ?line ` set [0..<?n] then 1 else (0::nat)"
  from assms(2,3) have ne: "[] \<notin> set ?line" by auto
  have img: "(!) ?line ` set [0..<?n] = set ys"
  proof -
    have "(!) ?line ` set [0..<?n] = (!) ys ` set [0..<?n]"
      by (auto simp: nth_append)
    also have "\<dots> = set (map ((!) ys) [0..<?n])" by simp
    also have "\<dots> = set ys" by (simp add: map_nth)
    finally show ?thesis .
  qed
  have pre: "map ((!) ?line) [0..<?n] = ys"
    by (intro nth_equalityI) (simp_all add: nth_append)
  have first: "dedup_loop [0..<?n] (?line, \<lambda>c. 0) = Some (?line, ?counts)"
    using assms(1) by (intro dedup_loop_fresh) (simp_all add: pre)
  have cx: "?counts x = 1" and c1: "?counts (x @ ''.1'') = 0"
    using assms(3,4) by (simp_all add: img del: set_upt)
  have fresh: "x @ ''.1'' \<notin> set ?line" using assms(4) by simp
  have "mangle_loop ?line x ?counts 1 x = Some (x @ ''.1'', 0, ?counts(x := 2))"
    using fresh c1 by (rule mangle_loop_first_repeat)
  then have last: "dedup_loop [?n] (?line, ?counts) =
      Some (ys @ [x @ ''.1''], (?counts(x := 2))(x @ ''.1'' := 1))"
    using cx by (simp del: set_upt)
  have "dedup_loop [0..<length ?line] (?line, \<lambda>c. 0) =
        Some (ys @ [x @ ''.1''], (?counts(x := 2))(x @ ''.1'' := 1))"
    using first last by (simp add: dedup_loop_append del: set_upt dedup_loop.simps)
  with ne show ?thesis by (simp add: read_excel_columns_named del: set_upt)
qed

lemma show_nat_nonempty: "show_nat n \<noteq> []"
  by (subst show_nat.simps) simp

lemma digit_inj:
  assumes "a < 10" and "b < 10" and "''0123456789'' ! a = ''0123456789'' ! b"
  shows "a = b"
proof -
  have "distinct ''0123456789''" by simp
  moreover have "length ''0123456789'' = 10" by simp
  ultimately show ?thesis using assms by (simp add: nth_eq_iff_index_eq)
qed

lemma show_nat_inj: "show_nat m = show_nat n \<Longrightarrow> m = n"
proof (induction m arbitrary: n rule: show_nat.induct)
  case (1 m)
  show ?case
  proof (cases "m < 10")
    case True
    then have m: "show_nat m = [''0123456789'' ! m]" by (subst show_nat.simps) simp
    show ?thesis
    proof (cases "n < 10")
      case n: True
      then have "show_nat n = [''0123456789'' ! n]" by (subst show_nat.simps) simp
      with m "1.prems" have "''0123456789'' ! m = ''0123456789'' ! n" by simp
      with True n show ?thesis by (intro digit_inj)
    next
      case False
      then have "show_nat n = show_nat (n div 10) @ [''0123456789'' ! (n mod 10)]"
        by (subst show_nat.simps) simp
      with m "1.prems" have "show_nat (n div 10) = []" by simp
      with show_nat_nonempty show ?thesis by blast
    qed
  next
    case False
    then have m: "show_nat m = show_nat (m div 10) @ [''0123456789'' ! (m mod 10)]"
      by (subst show_nat.simps) simp
    show ?thesis
    proof (cases "n < 10")
      case True
      then have "show_nat n = [''0123456789'' ! n]" by (subst show_nat.simps) simp
      with m "1.prems" have "show_nat (m div 10) = []" by simp
      with show_nat_nonempty show ?thesis by blast
    next
      case n: False
      then have "show_nat n = show_nat (n div 10) @ [''0123456789'' ! (n mod 10)]"
        by (subst show_nat.simps) simp
      with m "1.prems" have a: "show_nat (m div 10) = show_nat (n div 10)"
        and b: "''0123456789'' ! (m mod 10) = ''0123456789'' ! (n mod 10)"
        by simp_all
      from False a have "m div 10 = n div 10" by (intro "1.IH") simp_all
      moreover from b have "m mod 10 = n mod 10" by (intro digit_inj) simp_all
      ultimately show ?thesis by (metis div_mult_mod_eq)
    qed
  qed
qed

lemma fresh_label_exists:
  "\<exists>N \<ge> k. old_col @ ''.'' @ show_nat N \<notin> set this_columns"
proof (rule ccontr)
  assume "\<not> ?thesis"
  then have "(\<lambda>m. old_col @ ''.'' @ show_nat m) ` {k..} \<subseteq> set this_columns" by auto
  then have "finite ((\<lambda>m. old_col @ ''.'' @ show_nat m) ` {k..})"
    by (rule finite_subset) simp
  moreover have "inj_on (\<lambda>m. old_col @ ''.'' @ show_nat m) {k..}"
    by (auto simp: inj_on_def dest: show_nat_inj)
  ultimately have "finite {k..}" by (rule finite_imageD)
  then show False by (simp add: infinite_Ici)
qed

lemma mangle_loop_steps:
  assumes "0 < k" and "k \<le> N"
    and "\<forall>m. k \<le> m \<and> m < N \<longrightarrow> old_col @ ''.'' @ show_nat m \<in> set this_columns"
    and "old_col @ ''.'' @ show_nat N \<notin> set this_columns"
    and "counts (old_col @ ''.'' @ show_nat N) = 0"
  shows "mangle_loop this_columns old_col counts k col =
           Some (old_col @ ''.'' @ show_nat N, 0, counts(old_col := N + 1))"
  using assms
proof (induction "N - k" arbitrary: k counts col)
  case 0
  then have k: "k = N" by simp
  have ne: "old_col @ ''.'' @ show_nat N \<noteq> old_col" by simp
  have "mangle_loop this_columns old_col counts k col =
        mangle_loop this_columns old_col (counts(old_col := N + 1))
          ((counts(old_col := N + 1)) (old_col @ ''.'' @ show_nat N))
          (old_col @ ''.'' @ show_nat N)"
    using "0.prems"(1,4) unfolding k by (subst mangle_loop.simps) simp
  also have "(counts(old_col := N + 1)) (old_col @ ''.'' @ show_nat N) = 0"
    using "0.prems"(5) ne by simp
  finally show ?case by (simp only: mangle_loop_zero)
next
  case (Suc d)
  then have lt: "k < N" by simp
  with Suc.prems(3) have "old_col @ ''.'' @ show_nat k \<in> set this_columns" by simp
  then have "mangle_loop this_columns old_col counts k col =
        mangle_loop this_columns old_col (counts(old_col := k + 1)) (k + 1)
          (old_col @ ''.'' @ show_nat k)"
    using Suc.prems(1) by (subst mangle_loop.simps) simp
  also have "\<dots> = Some (old_col @ ''.'' @ show_nat N, 0,
                         (counts(old_col := k + 1))(old_col := N + 1))"
  proof (rule Suc.hyps(1))
    show "d = N - (k + 1)" using Suc.hyps(2) by simp
    show "0 < k + 1" by simp
    show "k + 1 \<le> N" using lt by simp
    show "\<forall>m. k + 1 \<le> m \<and> m < N \<longrightarrow> old_col @ ''.'' @ show_nat m \<in> set this_columns"
      using Suc.prems(3) by simp
    show "old_col @ ''.'' @ show_nat N \<notin> set this_columns" by (rule Suc.prems(4))
    have "old_col @ ''.'' @ show_nat N \<noteq> old_col" by simp
    with Suc.prems(5) show "(counts(old_col := k + 1)) (old_col @ ''.'' @ show_nat N) = 0"
      by simp
  qed
  finally show ?case by simp
qed

text \<open>The renaming of one column comes to an end, with a label that no column has.\<close>

lemma mangle_loop_returns:
  assumes "0 < k" and "\<forall>c. c \<notin> set this_columns \<longrightarrow> counts c = 0"
  shows "\<exists>N \<ge> k. old_col @ ''.'' @ show_nat N \<notin> set this_columns \<and>
           mangle_loop this_columns old_col counts k col =
             Some (old_col @ ''.'' @ show_nat N, 0, counts(old_col := N + 1))"
proof -
  define P where "P N \<longleftrightarrow> k \<le> N \<and> old_col @ ''.'' @ show_nat N \<notin> set this_columns" for N
  from fresh_label_exists [of k old_col this_columns] have ex: "\<exists>N. P N"
    by (auto simp: P_def)
  define N where "N = (LEAST N. P N)"
  from ex have PN: "P N" unfolding N_def by (auto intro: LeastI)
  have least: "\<not> P m" if "m < N" for m
    using that unfolding N_def by (rule not_less_Least)
  from PN have kN: "k \<le> N" and fresh: "old_col @ ''.'' @ show_nat N \<notin> set this_columns"
    by (simp_all add: P_def)
  from least have mid: "\<forall>m. k \<le> m \<and> m < N \<longrightarrow> old_col @ ''.'' @ show_nat m \<in> set this_columns"
    by (auto simp: P_def)
  from fresh assms(2) have z: "counts (old_col @ ''.'' @ show_nat N) = 0" by simp
  have "mangle_loop this_columns old_col counts k col =
          Some (old_col @ ''.'' @ show_nat N, 0, counts(old_col := N + 1))"
    using assms(1) kN mid fresh z by (rule mangle_loop_steps)
  with kN fresh show ?thesis by blast
qed

text \<open>
  The loop over the columns comes to an end and gives the columns it has renamed labels
  that differ from one another. \<open>seen\<close> are the columns renamed before: the labels
  counted so far are theirs.
\<close>

lemma dedup_loop_returns:
  assumes "distinct order" and "\<forall>i \<in> set order. i < length this_columns"
    and "set order \<inter> seen = {}" and "\<forall>j \<in> seen. j < length this_columns"
    and "\<forall>c. 0 < counts c \<longrightarrow> (\<exists>j \<in> seen. this_columns ! j = c)"
    and "\<forall>j \<in> seen. 0 < counts (this_columns ! j)"
    and "inj_on ((!) this_columns) seen"
  shows "\<exists>cols' counts'. dedup_loop order (this_columns, counts) = Some (cols', counts') \<and>
           length cols' = length this_columns \<and> inj_on ((!) cols') (seen \<union> set order)"
  using assms
proof (induction order arbitrary: this_columns counts seen)
  case Nil
  then show ?case by simp
next
  case (Cons i order)
  let ?c = "this_columns ! i"
  from Cons.prems have i: "i < length this_columns" and i_new: "i \<notin> seen"
    and i_order: "i \<notin> set order" and d: "distinct order"
    by auto
  have absent: "\<forall>c. c \<notin> set this_columns \<longrightarrow> counts c = 0"
  proof (intro allI impI)
    fix c assume c: "c \<notin> set this_columns"
    show "counts c = 0"
    proof (rule ccontr)
      assume "counts c \<noteq> 0"
      with Cons.prems(5) obtain j where "j \<in> seen" "this_columns ! j = c" by auto
      with Cons.prems(4) c show False by (metis nth_mem)
    qed
  qed
  obtain l n counts1 where
    m: "mangle_loop this_columns ?c counts (counts ?c) ?c = Some (l, n, counts1)"
    and l_new: "\<forall>j \<in> seen. this_columns ! j \<noteq> l"
    and A1: "\<forall>c. 0 < (counts1(l := n + 1)) c \<longrightarrow>
                (\<exists>j \<in> insert i seen. this_columns[i := l] ! j = c)"
    and B1: "\<forall>j \<in> seen. 0 < (counts1(l := n + 1)) (this_columns ! j)"
  proof (cases "counts ?c = 0")
    case True
    show ?thesis
    proof (rule that)
      show "mangle_loop this_columns ?c counts (counts ?c) ?c = Some (?c, 0, counts)"
        by (simp add: True mangle_loop_zero)
      show "\<forall>j \<in> seen. this_columns ! j \<noteq> ?c"
        using Cons.prems(6) True by (metis less_numeral_extra(3))
      show "\<forall>c. 0 < (counts(?c := 0 + 1)) c \<longrightarrow>
              (\<exists>j \<in> insert i seen. this_columns[i := ?c] ! j = c)"
        using Cons.prems(5) by (auto split: if_splits)
      show "\<forall>j \<in> seen. 0 < (counts(?c := 0 + 1)) (this_columns ! j)"
        using Cons.prems(6) by simp
    qed
  next
    case False
    then have pos: "0 < counts ?c" by simp
    from mangle_loop_returns [OF pos absent, of ?c ?c] obtain N where
      fresh: "?c @ ''.'' @ show_nat N \<notin> set this_columns"
      and r: "mangle_loop this_columns ?c counts (counts ?c) ?c =
                Some (?c @ ''.'' @ show_nat N, 0, counts(?c := N + 1))"
      by blast
    let ?l = "?c @ ''.'' @ show_nat N"
    from pos Cons.prems(5) obtain j0 where j0: "j0 \<in> seen" "this_columns ! j0 = ?c" by blast
    with i_new have j0i: "j0 \<noteq> i" by auto
    show ?thesis
    proof (rule that)
      show "mangle_loop this_columns ?c counts (counts ?c) ?c = Some (?l, 0, counts(?c := N + 1))"
        by (rule r)
      show "\<forall>j \<in> seen. this_columns ! j \<noteq> ?l"
        using fresh Cons.prems(4) by (metis nth_mem)
      show "\<forall>c. 0 < ((counts(?c := N + 1))(?l := 0 + 1)) c \<longrightarrow>
              (\<exists>j \<in> insert i seen. this_columns[i := ?l] ! j = c)"
      proof (intro allI impI)
        fix c assume c: "0 < ((counts(?c := N + 1))(?l := 0 + 1)) c"
        show "\<exists>j \<in> insert i seen. this_columns[i := ?l] ! j = c"
        proof (cases "c = ?l")
          case True
          with i show ?thesis by simp
        next
          case False
          have "\<exists>j \<in> seen. this_columns ! j = c"
          proof (cases "c = ?c")
            case True
            with j0 show ?thesis by blast
          next
            case f: False
            with False c have "0 < counts c" by simp
            with Cons.prems(5) show ?thesis by blast
          qed
          then obtain j where j: "j \<in> seen" "this_columns ! j = c" by blast
          with i_new have "j \<noteq> i" by auto
          with j(2) have "this_columns[i := ?l] ! j = c" by simp
          with j(1) show ?thesis by blast
        qed
      qed
      show "\<forall>j \<in> seen. 0 < ((counts(?c := N + 1))(?l := 0 + 1)) (this_columns ! j)"
        using Cons.prems(6) by simp
    qed
  qed
  let ?cols = "this_columns[i := l]"
  let ?counts = "counts1(l := n + 1)"
  let ?seen = "insert i seen"
  have keep: "?cols ! j = this_columns ! j" if "j \<in> seen" for j
    using that i_new by (metis nth_list_update_neq)
  have "\<exists>cols' counts'. dedup_loop order (?cols, ?counts) = Some (cols', counts') \<and>
          length cols' = length ?cols \<and> inj_on ((!) cols') (?seen \<union> set order)"
  proof (rule Cons.IH)
    show "distinct order" by (rule d)
    show "\<forall>i \<in> set order. i < length ?cols" using Cons.prems(2) by simp
    show "set order \<inter> ?seen = {}" using Cons.prems(3) i_order by auto
    show "\<forall>j \<in> ?seen. j < length ?cols" using Cons.prems(4) i by simp
    show "\<forall>c. 0 < ?counts c \<longrightarrow> (\<exists>j \<in> ?seen. ?cols ! j = c)" by (rule A1)
    show "\<forall>j \<in> ?seen. 0 < ?counts (?cols ! j)"
    proof
      fix j assume "j \<in> ?seen"
      then consider "j = i" | "j \<in> seen" by auto
      then show "0 < ?counts (?cols ! j)"
      proof cases
        case 1
        with i show ?thesis by simp
      next
        case 2
        with B1 keep show ?thesis by simp
      qed
    qed
    show "inj_on ((!) ?cols) ?seen"
    proof (rule inj_onI)
      fix a b assume ab: "a \<in> ?seen" "b \<in> ?seen" "?cols ! a = ?cols ! b"
      show "a = b"
      proof (cases "a = i")
        case True
        show ?thesis
        proof (rule ccontr)
          assume ne: "a \<noteq> b"
          with True ab(2) have b: "b \<in> seen" by auto
          with ab(3) True i keep have "this_columns ! b = l" by simp
          with l_new b show False by blast
        qed
      next
        case False
        with ab(1) have a: "a \<in> seen" by auto
        show ?thesis
        proof (cases "b = i")
          case True
          with ab(3) a i keep have "this_columns ! a = l" by simp
          with l_new a show ?thesis by blast
        next
          case b: False
          with ab(2) have "b \<in> seen" by auto
          with a ab(3) keep have "this_columns ! a = this_columns ! b" by simp
          with Cons.prems(7) a \<open>b \<in> seen\<close> show ?thesis by (auto dest: inj_onD)
        qed
      qed
    qed
  qed
  then obtain cols' counts' where
    r: "dedup_loop order (?cols, ?counts) = Some (cols', counts')"
    and len: "length cols' = length ?cols"
    and inj: "inj_on ((!) cols') (?seen \<union> set order)"
    by blast
  from m r have "dedup_loop (i # order) (this_columns, counts) = Some (cols', counts')"
    by simp
  moreover from len have "length cols' = length this_columns" by simp
  moreover from inj have "inj_on ((!) cols') (seen \<union> set (i # order))" by simp
  ultimately show ?case by blast
qed

text \<open>
  The reader labels every header row, with as many labels as the row has cells, and no
  two of them alike.
\<close>

lemma read_excel_columns_returns:
  "\<exists>ls. read_excel_columns line = Some ls \<and> length ls = length line \<and> distinct ls"
proof -
  define this_columns where "this_columns =
    map (\<lambda>i. if line ! i = [] then ''Unnamed: '' @ show_nat i else line ! i) [0..<length line]"
  define unnamed where "unnamed = filter (\<lambda>i. line ! i = []) [0..<length line]"
  define order where
    "order = filter (\<lambda>i. i \<notin> set unnamed) [0..<length this_columns] @ unnamed"
  have n: "length this_columns = length line" by (simp add: this_columns_def)
  have d: "distinct order" by (auto simp: order_def unnamed_def)
  have s: "set order = {0..<length line}" by (auto simp: order_def unnamed_def n)
  have "\<exists>cols' counts'. dedup_loop order (this_columns, \<lambda>c. 0) = Some (cols', counts') \<and>
          length cols' = length this_columns \<and> inj_on ((!) cols') ({} \<union> set order)"
    using d by (intro dedup_loop_returns) (simp_all add: s n)
  then obtain cols' counts' where
    r: "dedup_loop order (this_columns, \<lambda>c. 0) = Some (cols', counts')"
    and len: "length cols' = length line"
    and inj: "inj_on ((!) cols') {0..<length line}"
    by (auto simp: s n)
  from inj len have "distinct cols'"
    by (auto simp: distinct_conv_nth inj_on_def)
  moreover from r have "read_excel_columns line = Some cols'"
    unfolding read_excel_columns_def Let_def this_columns_def [symmetric]
      unnamed_def [symmetric] order_def [symmetric] by simp
  ultimately show ?thesis using len by blast
qed

text \<open>
  Claim C3, as the code has it. The code has no failure for a repeated target column,
  and a repeated name does not reach the loop of \<open>load_mappings\<close> as it stands in the
  file. For every source and target header, the reader returns labels for both, for the
  target as many as its header has cells and no two of them alike, and the dialog is
  constructed on them: one row for each label of the target, in the header's order,
  each the row of a target column of that name (an exact match when the source has a
  column of that name, a dropdown with suggestions otherwise), and a dictionary with one
  entry for each label of the target that is also a label of the source, mapped to
  itself. In a target header of different texts followed by a repetition \<open>x\<close> of one
  of them (and without a cell \<open>x.1\<close>), the repetition is labelled \<open>x.1\<close>.
\<close>

theorem repeated_target_column_is_renamed:
  "(\<exists>source_cols target_cols.
      read_excel_columns source_file = Some source_cols \<and>
      read_excel_columns target_file = Some target_cols \<and>
      length target_cols = length target_file \<and> distinct target_cols \<and>
      MappingReviewDialog_of_files scorer source_file target_file =
        Some (MappingReviewDialog scorer source_cols target_cols) \<and>
      mapping_tree (MappingReviewDialog scorer source_cols target_cols) =
        map (initial_row scorer source_cols) target_cols \<and>
      map text0 (mapping_tree (MappingReviewDialog scorer source_cols target_cols)) =
        target_cols \<and>
      distinct (map fst (get_manual_mappings
        (MappingReviewDialog scorer source_cols target_cols))) \<and>
      (\<forall>t. map_of (get_manual_mappings
              (MappingReviewDialog scorer source_cols target_cols)) t =
            (if t \<in> set target_cols \<and> t \<in> set source_cols then Some t else None))) \<and>
   (distinct ys \<and> [] \<notin> set ys \<and> x \<in> set ys \<and> x @ ''.1'' \<notin> set ys \<longrightarrow>
      read_excel_columns (ys @ [x]) = Some (ys @ [x @ ''.1'']))"
proof (intro conjI impI)
  from read_excel_columns_returns [of source_file] obtain source_cols where
    s: "read_excel_columns source_file = Some source_cols"
    by blast
  from read_excel_columns_returns [of target_file] obtain target_cols where
    t: "read_excel_columns target_file = Some target_cols"
    and len: "length target_cols = length target_file" and dis: "distinct target_cols"
    by blast
  let ?d = "MappingReviewDialog scorer source_cols target_cols"
  have t0: "map text0 (map (initial_row scorer source_cols) ls) = ls" for ls
    by (induction ls) (simp_all add: initial_row_def)
  have d: "distinct (map fst (get_manual_mappings ?d))"
    unfolding MappingReviewDialog_def get_manual_mappings_def
    by (rule distinct_load_mappings) simp
  have tr: "mapping_tree ?d = map (initial_row scorer source_cols) target_cols"
    by (simp add: tree_dialog)
  have tx: "map text0 (mapping_tree ?d) = target_cols"
    using t0 [of target_cols] by (simp add: tree_dialog)
  have mp: "\<forall>t. map_of (get_manual_mappings ?d) t =
            (if t \<in> set target_cols \<and> t \<in> set source_cols then Some t else None)"
    by (simp add: map_of_dialog get_manual_mappings_def)
  from s t have f: "MappingReviewDialog_of_files scorer source_file target_file = Some ?d"
    by (simp add: MappingReviewDialog_of_files_def)
  from s t len dis f tr tx d mp
  show "\<exists>source_cols target_cols.
      read_excel_columns source_file = Some source_cols \<and>
      read_excel_columns target_file = Some target_cols \<and>
      length target_cols = length target_file \<and> distinct target_cols \<and>
      MappingReviewDialog_of_files scorer source_file target_file =
        Some (MappingReviewDialog scorer source_cols target_cols) \<and>
      mapping_tree (MappingReviewDialog scorer source_cols target_cols) =
        map (initial_row scorer source_cols) target_cols \<and>
      map text0 (mapping_tree (MappingReviewDialog scorer source_cols target_cols)) =
        target_cols \<and>
      distinct (map fst (get_manual_mappings
        (MappingReviewDialog scorer source_cols target_cols))) \<and>
      (\<forall>t. map_of (get_manual_mappings
              (MappingReviewDialog scorer source_cols target_cols)) t =
            (if t \<in> set target_cols \<and> t \<in> set source_cols then Some t else None))"
    by blast
next
  assume "distinct ys \<and> [] \<notin> set ys \<and> x \<in> set ys \<and> x @ ''.1'' \<notin> set ys"
  then show "read_excel_columns (ys @ [x]) = Some (ys @ [x @ ''.1''])"
    by (intro read_excel_columns_repeated) simp_all
qed

theorem repeated_target_column_is_renamed_witness:
  "distinct [''Name''] \<and> [] \<notin> set [''Name''] \<and> ''Name'' \<in> set [''Name''] \<and>
   ''Name'' @ ''.1'' \<notin> set [''Name''] \<and>
   read_excel_columns ([''Name''] @ [''Name'']) = Some [''Name'', ''Name.1''] \<and>
   (\<exists>source_cols.
      read_excel_columns [''Name'', ''Email''] = Some source_cols \<and>
      MappingReviewDialog_of_files prefix_scorer [''Name'', ''Email''] [''Name'', ''Name''] =
        Some (MappingReviewDialog prefix_scorer source_cols [''Name'', ''Name.1'']) \<and>
      map text0 (mapping_tree
        (MappingReviewDialog prefix_scorer source_cols [''Name'', ''Name.1''])) =
        [''Name'', ''Name.1''])"
proof -
  have a: "distinct [''Name''] \<and> [] \<notin> set [''Name''] \<and> ''Name'' \<in> set [''Name''] \<and>
           ''Name'' @ ''.1'' \<notin> set [''Name'']"
    by simp
  note inst = repeated_target_column_is_renamed
                [of "[''Name'', ''Email'']" "[''Name'', ''Name'']" prefix_scorer
                    "[''Name'']" "''Name''"]
  from inst a have r: "read_excel_columns ([''Name''] @ [''Name'']) = Some [''Name'', ''Name.1'']"
    by simp
  from inst obtain source_cols target_cols where
    s: "read_excel_columns [''Name'', ''Email''] = Some source_cols"
    and t: "read_excel_columns [''Name'', ''Name''] = Some target_cols"
    and f: "MappingReviewDialog_of_files prefix_scorer [''Name'', ''Email''] [''Name'', ''Name''] =
              Some (MappingReviewDialog prefix_scorer source_cols target_cols)"
    and x: "map text0 (mapping_tree (MappingReviewDialog prefix_scorer source_cols target_cols)) =
              target_cols"
    by blast
  from r t have tc: "target_cols = [''Name'', ''Name.1'']" by simp
  have "\<exists>source_cols.
      read_excel_columns [''Name'', ''Email''] = Some source_cols \<and>
      MappingReviewDialog_of_files prefix_scorer [''Name'', ''Email''] [''Name'', ''Name''] =
        Some (MappingReviewDialog prefix_scorer source_cols [''Name'', ''Name.1'']) \<and>
      map text0 (mapping_tree
        (MappingReviewDialog prefix_scorer source_cols [''Name'', ''Name.1''])) =
        [''Name'', ''Name.1'']"
  proof (intro exI conjI)
    show "read_excel_columns [''Name'', ''Email''] = Some source_cols" by (rule s)
    show "MappingReviewDialog_of_files prefix_scorer [''Name'', ''Email''] [''Name'', ''Name''] =
        Some (MappingReviewDialog prefix_scorer source_cols [''Name'', ''Name.1''])"
      by (rule f [unfolded tc])
    show "map text0 (mapping_tree
        (MappingReviewDialog prefix_scorer source_cols [''Name'', ''Name.1''])) =
        [''Name'', ''Name.1'']"
      by (rule x [unfolded tc])
  qed
  with a r show ?thesis by (simp only: simp_thms)
qed

text \<open>
  The claim as stated fails: for the target header \<open>Name, Name\<close> the reader returns the
  labels \<open>Name\<close> and \<open>Name.1\<close>, and the construction of the mapping completes: a row
  for the exact match \<open>Name\<close>, a row with a dropdown for \<open>Name.1\<close>, and a dictionary
  of one entry.
\<close>

theorem duplicate_column_counterexample:
  "read_excel_columns [''Name''] = Some [''Name''] \<and>
   read_excel_columns [''Name'', ''Name''] = Some [''Name'', ''Name.1''] \<and>
   MappingReviewDialog_of_files prefix_scorer [''Name''] [''Name'', ''Name''] =
     Some \<lparr>mapping_tree =
             [\<lparr>text0 = ''Name'', text1 = ''Name'', widget = None\<rparr>,
              \<lparr>text0 = ''Name.1'', text1 = ''Not Mapped'',
               widget = Some \<lparr>items = [''Select mapping...'', ''Name''], currentIndex = 0\<rparr>\<rparr>],
           manual_mappings = [(''Name'', ''Name'')]\<rparr>"
proof -
  have a: "read_excel_columns [''Name''] = Some [''Name'']"
    by (rule read_excel_columns_distinct) simp_all
  have b: "read_excel_columns ([''Name''] @ [''Name'']) = Some ([''Name''] @ [''Name'' @ ''.1''])"
    by (rule read_excel_columns_repeated) simp_all
  then have b': "read_excel_columns [''Name'', ''Name''] = Some [''Name'', ''Name.1'']"
    by simp
  have "MappingReviewDialog prefix_scorer [''Name''] [''Name'', ''Name.1''] =
     \<lparr>mapping_tree =
             [\<lparr>text0 = ''Name'', text1 = ''Name'', widget = None\<rparr>,
              \<lparr>text0 = ''Name.1'', text1 = ''Not Mapped'',
               widget = Some \<lparr>items = [''Select mapping...'', ''Name''], currentIndex = 0\<rparr>\<rparr>],
           manual_mappings = [(''Name'', ''Name'')]\<rparr>"
    by (simp add: MappingReviewDialog_def load_mappings_def load_column_def
        process_extract_def prefix_scorer_def)
  with a b' show ?thesis by (simp add: MappingReviewDialog_of_files_def)
qed

section \<open>Manual overrides: \<open>on_mapping_selected\<close>\<close>

lemma dialog_inv_constructed:
  "dialog_inv source_cols (MappingReviewDialog scorer source_cols target_cols)"
proof -
  let ?d = "MappingReviewDialog scorer source_cols target_cols"
  have "distinct (map fst (manual_mappings ?d))"
    unfolding MappingReviewDialog_def by (rule distinct_load_mappings) simp
  moreover have "\<forall>p \<in> set (manual_mappings ?d). snd p = fst p"
    using set_load_mappings [of scorer source_cols target_cols
            "\<lparr>mapping_tree = [], manual_mappings = []\<rparr>"]
    by (auto simp: MappingReviewDialog_def)
  ultimately have fin: "finalized_mapping source_cols (manual_mappings ?d)"
    by (simp add: finalized_mapping_def)
  have "\<forall>it \<in> set (mapping_tree ?d). \<forall>c. widget it = Some c \<longrightarrow>
          text0 it \<notin> set source_cols \<and> items c \<noteq> [] \<and> set (tl (items c)) \<subseteq> set source_cols"
  proof (intro ballI allI impI)
    fix it c assume "it \<in> set (mapping_tree ?d)" and w: "widget it = Some c"
    then obtain t where it: "it = initial_row scorer source_cols t"
      by (auto simp: tree_dialog)
    with w have t: "t \<notin> set source_cols"
      by (auto simp: initial_row_def split: if_splits)
    with it w have "items c = ''Select mapping...'' #
        map fst (filter (\<lambda>m. 60 \<le> snd m) (process_extract scorer t source_cols 5))"
      by (auto simp: initial_row_def)
    with suggestions_in_source [of "\<lambda>m. 60 \<le> snd m" scorer t source_cols 5] t it
    show "text0 it \<notin> set source_cols \<and> items c \<noteq> [] \<and> set (tl (items c)) \<subseteq> set source_cols"
      by (simp add: initial_row_def)
  qed
  with fin show ?thesis by (simp add: dialog_inv_def)
qed

lemma dialog_inv_on_mapping_selected:
  assumes inv: "dialog_inv source_cols d"
    and i: "i < length (mapping_tree d)"
    and w: "widget (mapping_tree d ! i) \<noteq> None"
  shows "dialog_inv source_cols (on_mapping_selected i combo d)"
proof (cases "currentIndex combo > 0")
  case False
  with inv show ?thesis by (simp add: on_mapping_selected_def)
next
  case True
  let ?it = "mapping_tree d ! i"
  let ?t = "text0 ?it"
  let ?s = "currentText combo"
  from i have mem: "?it \<in> set (mapping_tree d)" by simp
  with inv w have t: "?t \<notin> set source_cols"
    by (auto simp: dialog_inv_def)
  from inv have fin: "finalized_mapping source_cols (manual_mappings d)"
    by (simp add: dialog_inv_def)
  have "finalized_mapping source_cols (dict_set ?t ?s (manual_mappings d))"
    unfolding finalized_mapping_def
  proof (intro conjI ballI impI)
    show "distinct (map fst (dict_set ?t ?s (manual_mappings d)))"
      using fin by (simp add: finalized_mapping_def distinct_dict_set)
  next
    fix p assume p: "p \<in> set (dict_set ?t ?s (manual_mappings d))" "fst p \<in> set source_cols"
    with set_dict_set [of ?t ?s "manual_mappings d"] t have "p \<in> set (manual_mappings d)"
      by auto
    with fin p(2) show "snd p = fst p" by (simp add: finalized_mapping_def)
  qed
  moreover have "\<forall>it \<in> set ((mapping_tree d)[i := ?it\<lparr>text1 := ?s\<rparr>]). \<forall>c. widget it = Some c \<longrightarrow>
          text0 it \<notin> set source_cols \<and> items c \<noteq> [] \<and> set (tl (items c)) \<subseteq> set source_cols"
  proof (intro ballI allI impI)
    fix it c assume it: "it \<in> set ((mapping_tree d)[i := ?it\<lparr>text1 := ?s\<rparr>])"
      and c: "widget it = Some c"
    from it set_update_subset_insert [of "mapping_tree d" i "?it\<lparr>text1 := ?s\<rparr>"]
    have "it = ?it\<lparr>text1 := ?s\<rparr> \<or> it \<in> set (mapping_tree d)" by auto
    then obtain it' where "it' \<in> set (mapping_tree d)" "widget it' = widget it" "text0 it' = text0 it"
      using mem by (elim disjE) auto
    with inv c show "text0 it \<notin> set source_cols \<and> items c \<noteq> [] \<and>
        set (tl (items c)) \<subseteq> set source_cols"
      by (auto simp: dialog_inv_def)
  qed
  ultimately show ?thesis
    using True by (simp add: on_mapping_selected_def dialog_inv_def Let_def)
qed

lemma dialog_inv_select_index:
  assumes inv: "dialog_inv source_cols d" and i: "i < length (mapping_tree d)"
  shows "dialog_inv source_cols (select_index i k d)"
proof (cases "widget (mapping_tree d ! i)")
  case None
  with inv show ?thesis by (simp add: select_index_def)
next
  case (Some combo)
  show ?thesis
  proof (cases "k = currentIndex combo")
    case True
    with Some inv show ?thesis by (simp add: select_index_def)
  next
    case False
    let ?it = "mapping_tree d ! i"
    let ?c = "combo\<lparr>currentIndex := k\<rparr>"
    let ?d = "d\<lparr>mapping_tree := (mapping_tree d)[i := ?it\<lparr>widget := Some ?c\<rparr>]\<rparr>"
    from i have mem: "?it \<in> set (mapping_tree d)" by simp
    have "\<forall>it \<in> set (mapping_tree ?d). \<forall>c. widget it = Some c \<longrightarrow>
            text0 it \<notin> set source_cols \<and> items c \<noteq> [] \<and> set (tl (items c)) \<subseteq> set source_cols"
    proof (intro ballI allI impI)
      fix it c assume it: "it \<in> set (mapping_tree ?d)" and c: "widget it = Some c"
      from it set_update_subset_insert [of "mapping_tree d" i "?it\<lparr>widget := Some ?c\<rparr>"]
      have "it = ?it\<lparr>widget := Some ?c\<rparr> \<or> it \<in> set (mapping_tree d)" by auto
      then show "text0 it \<notin> set source_cols \<and> items c \<noteq> [] \<and>
          set (tl (items c)) \<subseteq> set source_cols"
      proof
        assume "it = ?it\<lparr>widget := Some ?c\<rparr>"
        with c have "text0 it = text0 ?it" "items c = items combo" by auto
        with inv mem Some show ?thesis by (auto simp: dialog_inv_def)
      next
        assume "it \<in> set (mapping_tree d)"
        with inv c show ?thesis by (auto simp: dialog_inv_def)
      qed
    qed
    with inv have "dialog_inv source_cols ?d" by (simp add: dialog_inv_def)
    moreover have "i < length (mapping_tree ?d)" "widget (mapping_tree ?d ! i) \<noteq> None"
      using i by simp_all
    ultimately have "dialog_inv source_cols (on_mapping_selected i ?c ?d)"
      by (rule dialog_inv_on_mapping_selected)
    with Some False show ?thesis by (simp add: select_index_def Let_def)
  qed
qed

text \<open>
  Every state the user can reach keeps the invariant; so the dictionary that
  \<open>get_manual_mappings\<close> hands to \<open>append_data\<close> has the shape \<open>finalized_mapping\<close>.
\<close>

lemma reachable_dialog_inv:
  "reachable scorer source_cols target_cols d \<Longrightarrow> dialog_inv source_cols d"
  by (induction rule: reachable.induct)
     (simp_all add: dialog_inv_constructed dialog_inv_select_index)

lemma reachable_finalized_mapping:
  "reachable scorer source_cols target_cols d \<Longrightarrow>
     finalized_mapping source_cols (get_manual_mappings d)"
  using reachable_dialog_inv [of scorer source_cols target_cols d]
  by (simp add: dialog_inv_def get_manual_mappings_def)

text \<open>
  The path of the main window: whatever the user picks in the dialog, \<open>append_data\<close>
  with the dialog's dictionary returns a merged table for well-formed files.
\<close>

lemma main_window_append_returns:
  assumes "wf_table source_df" and "wf_table target_df" and "valid_set_order set_order"
    and "reachable scorer (columns source_df) (columns target_df) d"
  shows "\<exists>merged stats.
           append_data set_order source_df target_df (get_manual_mappings d) = Inr (merged, stats)"
  using assms(1-3) reachable_finalized_mapping [OF assms(4)]
  by (rule merge_returns_for_finalized)

text \<open>
  Claim C4, as the code has it. A manual override is a pick in the dropdown of a row.
  \<open>on_mapping_selected\<close> checks nothing and has no failure: for every dropdown whose
  current index is above the placeholder it records the dropdown's current text as the
  source column of the row's target column. In every state of the dialog that the user
  can reach, the entries of a row's dropdown above the placeholder are columns of the
  source header, so the recorded source column is in the source header.
\<close>

theorem override_records_dropdown_text:
  assumes "reachable scorer source_cols target_cols d"
    and "i < length (mapping_tree d)" and "widget (mapping_tree d ! i) = Some combo"
    and "0 < k" and "k < length (items combo)"
  shows "currentText (combo\<lparr>currentIndex := int k\<rparr>) = items combo ! k \<and>
         items combo ! k \<in> set source_cols \<and>
         map_of (manual_mappings (on_mapping_selected i (combo\<lparr>currentIndex := int k\<rparr>) d))
           (text0 (mapping_tree d ! i)) = Some (items combo ! k) \<and>
         (\<forall>any_combo. 0 < currentIndex any_combo \<longrightarrow>
            manual_mappings (on_mapping_selected i any_combo d) =
              dict_set (text0 (mapping_tree d ! i)) (currentText any_combo) (manual_mappings d))"
proof -
  from assms(1) have inv: "dialog_inv source_cols d" by (rule reachable_dialog_inv)
  from assms(2) have "mapping_tree d ! i \<in> set (mapping_tree d)" by simp
  with inv assms(3) have sub: "set (tl (items combo)) \<subseteq> set source_cols"
    by (auto simp: dialog_inv_def)
  from assms(5) obtain x xs where items: "items combo = x # xs" by (cases "items combo") auto
  from assms(4) obtain k' where k': "k = Suc k'" by (cases k) auto
  with assms(5) items have "items combo ! k \<in> set (tl (items combo))" by simp
  with sub have src: "items combo ! k \<in> set source_cols" by blast
  have cur: "currentText (combo\<lparr>currentIndex := int k\<rparr>) = items combo ! k"
    using assms(5) by (simp add: currentText_def)
  have upd: "manual_mappings (on_mapping_selected i any_combo d) =
               dict_set (text0 (mapping_tree d ! i)) (currentText any_combo) (manual_mappings d)"
    if "0 < currentIndex any_combo" for any_combo
    using that by (simp add: on_mapping_selected_def Let_def)
  have "0 < currentIndex (combo\<lparr>currentIndex := int k\<rparr>)" using assms(4) by simp
  from upd [OF this] cur
  have "map_of (manual_mappings (on_mapping_selected i (combo\<lparr>currentIndex := int k\<rparr>) d))
          (text0 (mapping_tree d ! i)) = Some (items combo ! k)"
    by (simp add: map_of_dict_set)
  with cur src upd show ?thesis by blast
qed

theorem override_records_dropdown_text_witness:
  "reachable demo_scorer [''Email''] [''E-mail''] (MappingReviewDialog demo_scorer [''Email''] [''E-mail'']) \<and>
   (0::nat) < length (mapping_tree (MappingReviewDialog demo_scorer [''Email''] [''E-mail''])) \<and>
   widget (mapping_tree (MappingReviewDialog demo_scorer [''Email''] [''E-mail'']) ! 0) =
     Some \<lparr>items = [''Select mapping...'', ''Email''], currentIndex = 0\<rparr> \<and>
   (0::nat) < 1 \<and> (1::nat) < length [''Select mapping...'', ''Email''] \<and>
   [''Select mapping...'', ''Email''] ! 1 \<in> set [''Email''] \<and>
   map_of (manual_mappings (on_mapping_selected 0
             \<lparr>items = [''Select mapping...'', ''Email''], currentIndex = 1\<rparr>
             (MappingReviewDialog demo_scorer [''Email''] [''E-mail''])))
     ''E-mail'' = Some ''Email''"
proof -
  let ?d = "MappingReviewDialog demo_scorer [''Email''] [''E-mail'']"
  let ?c = "\<lparr>items = [''Select mapping...'', ''Email''], currentIndex = 0\<rparr>"
  have d: "?d = \<lparr>mapping_tree = [\<lparr>text0 = ''E-mail'', text1 = ''Not Mapped'', widget = Some ?c\<rparr>],
                  manual_mappings = []\<rparr>"
    by (simp add: MappingReviewDialog_def load_mappings_def load_column_def process_extract_def demo_scorer_def)
  have r: "reachable demo_scorer [''Email''] [''E-mail''] ?d" by (rule reachable.constructed)
  have i: "0 < length (mapping_tree ?d)" by (simp add: d)
  have w: "widget (mapping_tree ?d ! 0) = Some ?c" by (simp add: d)
  have k: "(0::nat) < 1" "1 < length (items ?c)" by simp_all
  from override_records_dropdown_text [OF r i w k]
  have "items ?c ! 1 \<in> set [''Email'']"
    and "map_of (manual_mappings (on_mapping_selected 0 (?c\<lparr>currentIndex := int 1\<rparr>) ?d))
           (text0 (mapping_tree ?d ! 0)) = Some (items ?c ! 1)"
    by blast+
  moreover have "text0 (mapping_tree ?d ! 0) = ''E-mail''" by (simp add: d)
  ultimately have "[''Select mapping...'', ''Email''] ! 1 \<in> set [''Email'']"
    and "map_of (manual_mappings (on_mapping_selected 0
             \<lparr>items = [''Select mapping...'', ''Email''], currentIndex = 1\<rparr> ?d))
           ''E-mail'' = Some ''Email''"
    by simp_all
  with r i w k show ?thesis by simp
qed

text \<open>
  The claim as stated fails: called with a dropdown whose current text \<open>Ghost\<close> is not a
  column of the source header, \<open>on_mapping_selected\<close> does not fail and changes the
  dictionary, which was empty, to the entry for \<open>Ghost\<close>.
\<close>

theorem unresolved_reference_counterexample:
  "''Ghost'' \<notin> set [''Email''] \<and>
   manual_mappings (MappingReviewDialog demo_scorer [''Email''] [''E-mail'']) = [] \<and>
   on_mapping_selected 0 \<lparr>items = [''Select mapping...'', ''Ghost''], currentIndex = 1\<rparr>
     (MappingReviewDialog demo_scorer [''Email''] [''E-mail'']) =
     \<lparr>mapping_tree =
        [\<lparr>text0 = ''E-mail'', text1 = ''Ghost'',
          widget = Some \<lparr>items = [''Select mapping...'', ''Email''], currentIndex = 0\<rparr>\<rparr>],
      manual_mappings = [(''E-mail'', ''Ghost'')]\<rparr>"
  by (simp add: MappingReviewDialog_def load_mappings_def load_column_def process_extract_def demo_scorer_def
      on_mapping_selected_def currentText_def Let_def)

text \<open>
  Claim C8, as the code has it. Picking the placeholder of a dropdown changes nothing:
  \<open>on_mapping_selected\<close> called with a dropdown whose current index is not above the
  placeholder returns the dialog as it was, and after the user picks the placeholder of
  any row the dictionary and the source-column texts of all rows are what they were. An
  entry that had a chosen source column keeps it.
\<close>

theorem placeholder_keeps_mapping:
  assumes "currentIndex combo \<le> 0"
  shows "on_mapping_selected i combo d = d \<and>
         manual_mappings (select_index i 0 d) = manual_mappings d \<and>
         map text1 (mapping_tree (select_index i 0 d)) = map text1 (mapping_tree d) \<and>
         map text0 (mapping_tree (select_index i 0 d)) = map text0 (mapping_tree d)"
proof -
  have a: "on_mapping_selected i combo d = d"
    using assms by (simp add: on_mapping_selected_def)
  have t1: "map text1 ((mapping_tree d)[i := (mapping_tree d ! i)\<lparr>widget := w\<rparr>]) =
            map text1 (mapping_tree d)" for w
    by (cases "i < length (mapping_tree d)")
       (simp_all add: map_update list_update_same_conv list_update_beyond)
  have t0: "map text0 ((mapping_tree d)[i := (mapping_tree d ! i)\<lparr>widget := w\<rparr>]) =
            map text0 (mapping_tree d)" for w
    by (cases "i < length (mapping_tree d)")
       (simp_all add: map_update list_update_same_conv list_update_beyond)
  show ?thesis
    using a t1 t0
    by (auto simp: select_index_def on_mapping_selected_def Let_def split: option.splits)
qed

theorem placeholder_keeps_mapping_witness:
  "currentIndex \<lparr>items = [''Select mapping...'', ''Email''], currentIndex = 0\<rparr> \<le> 0 \<and>
   on_mapping_selected 0 \<lparr>items = [''Select mapping...'', ''Email''], currentIndex = 0\<rparr>
     \<lparr>mapping_tree =
        [\<lparr>text0 = ''E-mail'', text1 = ''Email'',
          widget = Some \<lparr>items = [''Select mapping...'', ''Email''], currentIndex = 1\<rparr>\<rparr>],
      manual_mappings = [(''E-mail'', ''Email'')]\<rparr> =
     \<lparr>mapping_tree =
        [\<lparr>text0 = ''E-mail'', text1 = ''Email'',
          widget = Some \<lparr>items = [''Select mapping...'', ''Email''], currentIndex = 1\<rparr>\<rparr>],
      manual_mappings = [(''E-mail'', ''Email'')]\<rparr> \<and>
   manual_mappings (select_index 0 0
     \<lparr>mapping_tree =
        [\<lparr>text0 = ''E-mail'', text1 = ''Email'',
          widget = Some \<lparr>items = [''Select mapping...'', ''Email''], currentIndex = 1\<rparr>\<rparr>],
      manual_mappings = [(''E-mail'', ''Email'')]\<rparr>) = [(''E-mail'', ''Email'')]"
proof -
  have h: "currentIndex \<lparr>items = [''Select mapping...'', ''Email''], currentIndex = 0\<rparr> \<le> 0"
    by simp
  from placeholder_keeps_mapping [OF h, of 0
     "\<lparr>mapping_tree =
        [\<lparr>text0 = ''E-mail'', text1 = ''Email'',
          widget = Some \<lparr>items = [''Select mapping...'', ''Email''], currentIndex = 1\<rparr>\<rparr>],
      manual_mappings = [(''E-mail'', ''Email'')]\<rparr>"] h
  show ?thesis by simp
qed

text \<open>
  The claim as stated fails: the user picks \<open>Email\<close> for the target column \<open>E-mail\<close>
  and then picks the placeholder again; the entry keeps \<open>Email\<close> as its chosen source
  column, the row still shows it, and the status is not Unmapped.
\<close>

theorem placeholder_counterexample:
  "chosen_source_column
     (select_index 0 1 (MappingReviewDialog demo_scorer [''Email''] [''E-mail'']))
     (mapping_tree (select_index 0 1 (MappingReviewDialog demo_scorer [''Email''] [''E-mail''])) ! 0) =
     Some ''Email'' \<and>
   select_index 0 0 (select_index 0 1 (MappingReviewDialog demo_scorer [''Email''] [''E-mail''])) =
     \<lparr>mapping_tree =
        [\<lparr>text0 = ''E-mail'', text1 = ''Email'',
          widget = Some \<lparr>items = [''Select mapping...'', ''Email''], currentIndex = 0\<rparr>\<rparr>],
      manual_mappings = [(''E-mail'', ''Email'')]\<rparr> \<and>
   chosen_source_column
     (select_index 0 0 (select_index 0 1 (MappingReviewDialog demo_scorer [''Email''] [''E-mail''])))
     (mapping_tree (select_index 0 0
        (select_index 0 1 (MappingReviewDialog demo_scorer [''Email''] [''E-mail'']))) ! 0) =
     Some ''Email'' \<and>
   entry_status
     (select_index 0 0 (select_index 0 1 (MappingReviewDialog demo_scorer [''Email''] [''E-mail''])))
     (mapping_tree (select_index 0 0
        (select_index 0 1 (MappingReviewDialog demo_scorer [''Email''] [''E-mail'']))) ! 0) =
     ManuallySet"
proof -
  let ?c = "\<lparr>items = [''Select mapping...'', ''Email''], currentIndex = 0\<rparr>"
  have d0: "MappingReviewDialog demo_scorer [''Email''] [''E-mail''] =
              \<lparr>mapping_tree = [\<lparr>text0 = ''E-mail'', text1 = ''Not Mapped'', widget = Some ?c\<rparr>],
               manual_mappings = []\<rparr>"
    by (simp add: MappingReviewDialog_def load_mappings_def load_column_def process_extract_def demo_scorer_def)
  have d1: "select_index 0 1 (MappingReviewDialog demo_scorer [''Email''] [''E-mail'']) =
              \<lparr>mapping_tree = [\<lparr>text0 = ''E-mail'', text1 = ''Email'',
                                widget = Some (?c\<lparr>currentIndex := 1\<rparr>)\<rparr>],
               manual_mappings = [(''E-mail'', ''Email'')]\<rparr>"
    unfolding d0 by (simp add: select_index_def on_mapping_selected_def currentText_def Let_def)
  have d2: "select_index 0 0 (select_index 0 1 (MappingReviewDialog demo_scorer [''Email''] [''E-mail''])) =
              \<lparr>mapping_tree = [\<lparr>text0 = ''E-mail'', text1 = ''Email'', widget = Some ?c\<rparr>],
               manual_mappings = [(''E-mail'', ''Email'')]\<rparr>"
    unfolding d1 by (simp add: select_index_def on_mapping_selected_def Let_def)
  show ?thesis
    unfolding d2 unfolding d1
    by (simp add: chosen_source_column_def entry_status_def)
qed

end
